theory Spec2Isabelle
  imports Complex_Main
begin

section \<open>The audio track editor of RWKV-Runner\<close>

text \<open>
  This theory embeds the core of \<^verbatim>\<open>frontend/src/pages/AudiotrackManager/AudiotrackEditor.tsx\<close>:
  the velocity quantizer \<^verbatim>\<open>velocityToBin\<close>, the token encoder \<^verbatim>\<open>midiMessageToToken\<close>,
  the MIDI input handler \<^verbatim>\<open>midiMessageHandler\<close>, the click handler of the record button, the
  drag handler of a track, and the export handler that merges all tracks into one prompt.

  JavaScript numbers are modelled as follows. Times, notes, velocities and indices are
  integers (\<open>int\<close>). Where the source divides or raises to a power, the model computes
  over the reals and applies \<^verbatim>\<open>Math.round\<close>, \<^verbatim>\<open>Math.floor\<close> and \<^verbatim>\<open>Math.ceil\<close> to the exact value.
  Strings are \<open>string\<close>. The observable store \<^verbatim>\<open>commonStore\<close> is a record that every handler
  takes and returns. Arrays are lists; the merge of the export handler is given a second
  time on arrays with identity in a heap, where \<^verbatim>\<open>sort\<close>, \<^verbatim>\<open>push\<close> and \<^verbatim>\<open>splice\<close> update in place.
\<close>

subsection \<open>Data model\<close>

text \<open>
  Modelled from the spec: the type \<^verbatim>\<open>MidiMessage\<close> is declared in \<^verbatim>\<open>types/composition\<close>, which is
  not among the sources. The spec has note-on and note-off events with a note, a velocity
  and an instrument, elapsed-time events with a number of milliseconds, and control-change
  events with a value. The source reads them as one object type with the fields
  \<^verbatim>\<open>messageType\<close>, \<^verbatim>\<open>note\<close> (here \<open>noteNumber\<close>), \<^verbatim>\<open>velocity\<close>, \<^verbatim>\<open>value\<close> (here \<open>msgValue\<close>) and
  \<^verbatim>\<open>instrument\<close>. The two renamed fields avoid Isar keywords.
\<close>

datatype MessageType = NoteOff | NoteOn | ElapsedTime | ControlChange

record MidiMessage =
  messageType :: MessageType
  noteNumber :: int
  velocity :: int
  msgValue :: int
  instrument :: int

text \<open>
  A track as the editor creates it (\<^verbatim>\<open>New Track\<close> button); \<^verbatim>\<open>id\<close> is \<open>trackId\<close> here.
\<close>

record Track =
  trackId :: string
  mainInstrument :: string
  content :: string
  rawContent :: "MidiMessage list"
  offsetTime :: int
  contentTime :: int

text \<open>
  The mutable state the handlers share: the fields of \<^verbatim>\<open>commonStore\<close> that the editor uses,
  the module variable \<^verbatim>\<open>dropRecordingTime\<close> and the component state \<^verbatim>\<open>selectedTrackId\<close>.
\<close>

record Store =
  tracks :: "Track list"
  trackTotalTime :: int
  trackPlayStartTime :: int
  recordingTrackId :: string
  playingTrackId :: string
  recordingContent :: string
  recordingRawContent :: "MidiMessage list"
  instrumentType :: int
  activeMidiDeviceIndex :: int
  compositionSubmittedPrompt :: string
  dropRecordingTime :: bool
  selectedTrackId :: string

datatype error = NoDeviceSelected

subsection \<open>Constants of the module\<close>

definition snapValue :: int where "snapValue = 25"
definition minimalMoveTime :: int where "minimalMoveTime = 8"
definition scaleMin :: real where "scaleMin = 0.05"
definition velocityEvents :: int where "velocityEvents = 128"
definition velocityBins :: int where "velocityBins = 12"
definition velocityExp :: real where "velocityExp = 0.5"

subsection \<open>JavaScript library functions\<close>

text \<open>\<^verbatim>\<open>Math.round\<close> rounds to the nearest integer, halves towards plus infinity.\<close>

definition mathRound :: "real \<Rightarrow> int" where
  "mathRound x = \<lfloor>x + 1 / 2\<rfloor>"

definition baseMoveTime :: int where
  "baseMoveTime = mathRound (real_of_int minimalMoveTime / scaleMin)"

text \<open>
  \<^verbatim>\<open>Number.prototype.toString(radix)\<close> on an integer: the digits of the magnitude in the
  radix, lower case, after a minus sign when the number is negative. The editor calls it
  with radix 16, and with radix 10 inside template literals; a radix below 2, which
  JavaScript rejects, does not occur.
\<close>

definition digitChar :: "nat \<Rightarrow> char" where
  "digitChar d = ''0123456789abcdefghijklmnopqrstuvwxyz'' ! d"

function natToString :: "nat \<Rightarrow> nat \<Rightarrow> string" where
  "natToString radix n =
     (if radix < 2 \<or> n < radix then [digitChar n]
      else natToString radix (n div radix) @ [digitChar (n mod radix)])"
  by pat_completeness auto
termination
  by (relation "measure snd") auto

definition numberToString :: "nat \<Rightarrow> int \<Rightarrow> string" where
  "numberToString radix i =
     (if i < 0 then CHR ''-'' # natToString radix (nat (- i)) else natToString radix (nat i))"

text \<open>
  Indexing a table with a number: an index outside the table yields \<^verbatim>\<open>undefined\<close>, which a
  template literal prints as the word \<^verbatim>\<open>undefined\<close>.
\<close>

definition tableLookup :: "string list \<Rightarrow> int \<Rightarrow> string" where
  "tableLookup table i =
     (if 0 \<le> i \<and> nat i < length table then table ! nat i else ''undefined'')"

text \<open>\<^verbatim>\<open>Array.prototype.findIndex\<close>: the first index whose element satisfies the test, or -1.\<close>

fun findIndex :: "('a \<Rightarrow> bool) \<Rightarrow> 'a list \<Rightarrow> int" where
  "findIndex P [] = - 1"
| "findIndex P (x # xs) =
     (if P x then 0 else (let i = findIndex P xs in if i < 0 then - 1 else i + 1))"

text \<open>
  \<^verbatim>\<open>array.splice(start, 0, item)\<close>: insert one item; a negative start counts from the end,
  and the start is clamped to the array.
\<close>

definition splice :: "int \<Rightarrow> 'a \<Rightarrow> 'a list \<Rightarrow> 'a list" where
  "splice start item xs =
     (let len = int (length xs);
          actualStart = (if start < 0 then max (len + start) 0 else min start len)
      in take (nat actualStart) xs @ item # drop (nat actualStart) xs)"

text \<open>\<^verbatim>\<open>String.prototype.trim\<close> on ASCII text: white space is dropped at both ends.\<close>

definition isWhiteSpace :: "char \<Rightarrow> bool" where
  "isWhiteSpace c = (c \<in> set [CHR '' '', CHR 0x09, CHR 0x0A, CHR 0x0B, CHR 0x0C, CHR 0x0D])"

definition trim :: "string \<Rightarrow> string" where
  "trim s = rev (dropWhile isWhiteSpace (rev (dropWhile isWhiteSpace s)))"

subsection \<open>Velocity quantizer and token encoder\<close>

text \<open>
  \<^verbatim>\<open>velocityToBin\<close> (lines 87-91). The power and the quotients are taken over the reals;
  \<open>velocityToBin_code\<close> below gives the same function in integer arithmetic.
\<close>

definition velocityToBin :: "int \<Rightarrow> int" where
  "velocityToBin velocity0 =
    (let velocity = max 0 (min velocity0 (velocityEvents - 1));
         binsize = real_of_int velocityEvents / real_of_int (velocityBins - 1)
     in \<lceil>(real_of_int velocityEvents *
           ((velocityExp powr (real_of_int velocity / real_of_int velocityEvents) - 1.0) /
            (velocityExp - 1.0))) / binsize\<rceil>)"

text \<open>The loop of lines 104-106, which appends one maximal wait token per round.\<close>

function waitLoop :: "int \<Rightarrow> int \<Rightarrow> string \<Rightarrow> string" where
  "waitLoop i num ret = (if i < num then waitLoop (i + 1) num (ret @ ''t125 '') else ret)"
  by pat_completeness auto
termination
  by (relation "measure (\<lambda>(i, num, ret). nat (num - i))") auto

text \<open>
  \<^verbatim>\<open>midiMessageToToken\<close> (lines 93-112). The table \<^verbatim>\<open>InstrumentTypeTokenMap\<close> is declared in
  \<^verbatim>\<open>types/composition\<close>, outside the sources, and is a parameter here. The instrument is read
  from \<^verbatim>\<open>commonStore.instrumentType\<close>, the second parameter, not from the message.
  \<^verbatim>\<open>Math.floor(time / 125)\<close> of an integer \<open>time\<close> is \<open>time div 125\<close>.
\<close>

definition midiMessageToToken :: "string list \<Rightarrow> int \<Rightarrow> MidiMessage \<Rightarrow> string" where
  "midiMessageToToken InstrumentTypeTokenMap selectedInstrument msg =
     (if messageType msg = NoteOn \<or> messageType msg = NoteOff then
        (let instrument = tableLookup InstrumentTypeTokenMap selectedInstrument;
             note = numberToString 16 (noteNumber msg);
             velocity = numberToString 16 (velocityToBin (velocity msg))
         in instrument @ '':'' @ note @ '':'' @ velocity @ '' '')
      else if messageType msg = ElapsedTime then
        (let time = mathRound (real_of_int (msgValue msg) / real_of_int minimalMoveTime);
             num = time div 125;
             time = time - num * 125;
             ret = waitLoop 0 num ''''
         in if time > 0 then ret @ ''t'' @ numberToString 10 time @ '' '' else ret)
      else '''')"

subsection \<open>Recording session\<close>

text \<open>
  Modelled from the spec: \<^verbatim>\<open>refreshTracksTotalTime\<close> is imported from \<^verbatim>\<open>utils\<close>, which is not
  among the sources. The spec: \<^emph>\<open>total_time = max(minimum_floor, max over tracks of
  offset_time + content_time)\<close>. The floor \<^verbatim>\<open>tracksMinimalTotalTime\<close> is a constant of
  \<^verbatim>\<open>types/composition\<close> and a parameter here.
\<close>

definition refreshTracksTotalTime :: "int \<Rightarrow> Store \<Rightarrow> Store" where
  "refreshTracksTotalTime tracksMinimalTotalTime s =
     s\<lparr>trackTotalTime :=
         foldl max tracksMinimalTotalTime (map (\<lambda>t. offsetTime t + contentTime t) (tracks s))\<rparr>"

text \<open>
  Modelled from the spec: \<^verbatim>\<open>flushMidiRecordingContent\<close> is imported from \<^verbatim>\<open>utils\<close>, which is
  not among the sources. The spec: the recording buffer and the live token string are
  flushed into the target track's raw content and rendered content, the content time is
  recomputed as the sum of the elapsed-time deltas, the total time is recomputed, and the
  buffers are cleared. The handlers reset \<^verbatim>\<open>recordingTrackId\<close> themselves after the call, so
  the flush leaves it as it is.
\<close>

definition flushMidiRecordingContent :: "int \<Rightarrow> Store \<Rightarrow> Store" where
  "flushMidiRecordingContent tracksMinimalTotalTime s =
     (let recordingTrackIndex = findIndex (\<lambda>t. trackId t = recordingTrackId s) (tracks s);
          s1 = (if recordingTrackIndex \<ge> 0 then
                  (let recordingTrack = tracks s ! nat recordingTrackIndex;
                       newContentTime = sum_list (map msgValue
                          (filter (\<lambda>m. messageType m = ElapsedTime) (recordingRawContent s)))
                   in refreshTracksTotalTime tracksMinimalTotalTime
                        (s\<lparr>tracks := (tracks s)[nat recordingTrackIndex :=
                             recordingTrack\<lparr>content := recordingContent s,
                                             rawContent := recordingRawContent s,
                                             contentTime := newContentTime\<rparr>]\<rparr>))
                else s)
      in s1\<lparr>recordingContent := '''', recordingRawContent := []\<rparr>)"

text \<open>
  \<^verbatim>\<open>midiMessageHandler\<close> (lines 116-137). The display of the instrument panel and the call
  of \<^verbatim>\<open>PlayNote\<close> leave the store as it is and are left out. The table
  \<^verbatim>\<open>InstrumentTypeNameMap\<close> is a parameter, as the token table is.
\<close>

definition midiMessageHandler ::
  "string list \<Rightarrow> string list \<Rightarrow> MidiMessage \<Rightarrow> Store \<Rightarrow> Store" where
  "midiMessageHandler InstrumentTypeNameMap InstrumentTypeTokenMap data s =
     (if messageType data = ControlChange then
        s\<lparr>instrumentType :=
            mathRound (real_of_int (msgValue data) / 127 *
                       real_of_int (int (length InstrumentTypeNameMap) - 1))\<rparr>
      else if recordingTrackId s \<noteq> '''' then
        (if dropRecordingTime s \<and> messageType data = ElapsedTime then
           s\<lparr>dropRecordingTime := False\<rparr>
         else
           (let data = data\<lparr>instrument := instrumentType s\<rparr>
            in s\<lparr>recordingRawContent := recordingRawContent s @ [data],
                 recordingContent := recordingContent s @
                    midiMessageToToken InstrumentTypeTokenMap (instrumentType s) data\<rparr>))
      else s)"

text \<open>
  The click handler of a track's record button (lines 369-388). The warning toast is the
  error value \<open>NoDeviceSelected\<close>; the store is returned in every branch, since the first
  two statements of the handler run before the device is looked at.
\<close>

definition recordOnClick :: "int \<Rightarrow> Track \<Rightarrow> Store \<Rightarrow> (error + unit) \<times> Store" where
  "recordOnClick tracksMinimalTotalTime track s0 =
     (let s1 = flushMidiRecordingContent tracksMinimalTotalTime s0;
          s2 = s1\<lparr>playingTrackId := ''''\<rparr>
      in if recordingTrackId s2 = trackId track then
           (Inr (), s2\<lparr>recordingTrackId := ''''\<rparr>)
         else if activeMidiDeviceIndex s2 = - 1 then
           (Inl NoDeviceSelected, s2)
         else
           (Inr (), s2\<lparr>dropRecordingTime := True,
                       selectedTrackId := trackId track,
                       recordingTrackId := trackId track,
                       recordingContent := content track,
                       recordingRawContent := rawContent track\<rparr>))"

text \<open>
  The click handler of a track's play button (lines 393-404). The button is disabled in
  this version of the editor; the handler is the sibling of the record handler and, like
  the export handler, resets the recording track right after the flush.
\<close>

definition playOnClick :: "int \<Rightarrow> Track \<Rightarrow> Store \<Rightarrow> Store" where
  "playOnClick tracksMinimalTotalTime track s0 =
     (let s1 = flushMidiRecordingContent tracksMinimalTotalTime s0;
          s2 = s1\<lparr>recordingTrackId := ''''\<rparr>
      in if playingTrackId s2 = trackId track then s2\<lparr>playingTrackId := ''''\<rparr>
         else s2\<lparr>selectedTrackId := trackId track, playingTrackId := trackId track\<rparr>)"

subsection \<open>Track store: moving a track\<close>

text \<open>
  The change of the offset that a drag asks for (line 172): the horizontal distance \<open>delta\<close>
  of the drag in pixels, turned into time at the zoom \<open>scale\<close> of the view and rounded to a
  multiple of the minimal move time.
\<close>

definition requestedChange :: "real \<Rightarrow> real \<Rightarrow> int" where
  "requestedChange delta scale =
     mathRound (real_of_int (mathRound
         (delta / real_of_int snapValue * real_of_int baseMoveTime * scale))
       / real_of_int minimalMoveTime) * minimalMoveTime"

text \<open>
  The \<^verbatim>\<open>onStop\<close> handler of a dragged track (lines 170-181). The component of a track exists
  only while the track is in the store, so a track that is not found is \<open>None\<close>.
\<close>

definition trackOnStop :: "int \<Rightarrow> string \<Rightarrow> real \<Rightarrow> real \<Rightarrow> Store \<Rightarrow> Store option" where
  "trackOnStop tracksMinimalTotalTime ident delta scale s =
     (let trackIndex = findIndex (\<lambda>t. trackId t = ident) (tracks s)
      in if trackIndex < 0 then None
         else
           (let track = tracks s ! nat trackIndex;
                requested = requestedChange delta scale;
                applied = min (max requested (- offsetTime track))
                              (trackTotalTime s - offsetTime track);
                newTracks = (tracks s)[nat trackIndex :=
                               track\<lparr>offsetTime := offsetTime track + applied\<rparr>]
            in Some (refreshTracksTotalTime tracksMinimalTotalTime (s\<lparr>tracks := newTracks\<rparr>))))"

subsection \<open>Timeline merger\<close>

text \<open>
  The export handler (lines 459-500), loop by loop. First pass (lines 466-475): the inner
  loop pushes the absolute time after every elapsed-time message of one track, the outer
  loop walks the tracks in the order of their offsets.
\<close>

fun pushTimestamps :: "int \<Rightarrow> MidiMessage list \<Rightarrow> int \<Rightarrow> int list \<Rightarrow> int list" where
  "pushTimestamps trackOffset [] accContentTime timestamp = timestamp"
| "pushTimestamps trackOffset (msg # rest) accContentTime timestamp =
     (if messageType msg = ElapsedTime then
        (let accContentTime = accContentTime + msgValue msg
         in pushTimestamps trackOffset rest accContentTime
              (timestamp @ [trackOffset + accContentTime]))
      else pushTimestamps trackOffset rest accContentTime timestamp)"

fun collectTimestamps :: "Track list \<Rightarrow> int list \<Rightarrow> int list" where
  "collectTimestamps [] timestamp = timestamp"
| "collectTimestamps (track # rest) timestamp =
     collectTimestamps rest
       (pushTimestamps (offsetTime track) (rawContent track) 0 (timestamp @ [offsetTime track]))"

text \<open>
  The skeleton of wait messages (lines 477-482): one elapsed-time message per sorted
  timestamp, holding the distance to the timestamp before it (to 0 for the first). The
  object literal has the two fields \<^verbatim>\<open>messageType\<close> and \<^verbatim>\<open>value\<close>; the other fields are never
  read from it and are 0 here.
\<close>

definition elapsedMessage :: "int \<Rightarrow> MidiMessage" where
  "elapsedMessage v =
     \<lparr>messageType = ElapsedTime, noteNumber = 0, velocity = 0, msgValue = v, instrument = 0\<rparr>"

definition skeletonMessages :: "int list \<Rightarrow> MidiMessage list" where
  "skeletonMessages sortedTimestamp =
     map (\<lambda>i. elapsedMessage
                (sortedTimestamp ! i - (if i = 0 then 0 else sortedTimestamp ! (i - 1))))
         [0..<length sortedTimestamp]"

text \<open>
  Second pass (lines 483-496): every note message of every track is spliced into
  \<^verbatim>\<open>globalMessages\<close> right after the first entry of \<^verbatim>\<open>sortedTimestamp\<close> that is not before the
  note's time, and a 0 is spliced into \<^verbatim>\<open>sortedTimestamp\<close> at the same index.
\<close>

fun insertNotes ::
  "int \<Rightarrow> MidiMessage list \<Rightarrow> int \<Rightarrow> int \<Rightarrow> MidiMessage list \<times> int list
     \<Rightarrow> MidiMessage list \<times> int list" where
  "insertNotes trackOffset [] currentTime accContentTime arrays = arrays"
| "insertNotes trackOffset (msg # rest) currentTime accContentTime (globalMessages, sortedTimestamp) =
     (if messageType msg = ElapsedTime then
        (let accContentTime = accContentTime + msgValue msg;
             currentTime = trackOffset + accContentTime
         in insertNotes trackOffset rest currentTime accContentTime (globalMessages, sortedTimestamp))
      else if messageType msg = NoteOn \<or> messageType msg = NoteOff then
        (let insertIndex = findIndex (\<lambda>t. t \<ge> currentTime) sortedTimestamp
         in insertNotes trackOffset rest currentTime accContentTime
              (splice (insertIndex + 1) msg globalMessages, splice (insertIndex + 1) 0 sortedTimestamp))
      else insertNotes trackOffset rest currentTime accContentTime (globalMessages, sortedTimestamp))"

fun insertAllNotes ::
  "Track list \<Rightarrow> MidiMessage list \<times> int list \<Rightarrow> MidiMessage list \<times> int list" where
  "insertAllNotes [] arrays = arrays"
| "insertAllNotes (track # rest) arrays =
     insertAllNotes rest
       (insertNotes (offsetTime track) (rawContent track) (offsetTime track) 0 arrays)"

text \<open>
  The merged message list (lines 464-496). \<^verbatim>\<open>Array.prototype.sort\<close> is stable, as \<open>sort_key\<close>
  is.
\<close>

definition mergeMessages :: "Track list \<Rightarrow> MidiMessage list" where
  "mergeMessages trackList =
     (let sortedTracks = sort_key offsetTime trackList;
          timestamp = collectTimestamps sortedTracks [];
          sortedTimestamp = sort timestamp;
          globalMessages = skeletonMessages sortedTimestamp
      in fst (insertAllNotes sortedTracks (globalMessages, sortedTimestamp)))"

text \<open>The prompt (line 497).\<close>

definition mergeTracks :: "string list \<Rightarrow> int \<Rightarrow> Track list \<Rightarrow> string" where
  "mergeTracks InstrumentTypeTokenMap selectedInstrument trackList =
     trim (''<pad> '' @
           concat (map (midiMessageToToken InstrumentTypeTokenMap selectedInstrument)
                       (mergeMessages trackList)))"

text \<open>
  The whole click handler of the export button (lines 459-500); the first component of
  the result is the prompt handed to \<^verbatim>\<open>setPrompt\<close>.
\<close>

definition exportOnClick :: "string list \<Rightarrow> int \<Rightarrow> Store \<Rightarrow> string \<times> Store" where
  "exportOnClick InstrumentTypeTokenMap tracksMinimalTotalTime s0 =
     (let s1 = flushMidiRecordingContent tracksMinimalTotalTime s0;
          s2 = s1\<lparr>recordingTrackId := ''''\<rparr>;
          s3 = s2\<lparr>playingTrackId := ''''\<rparr>;
          result = mergeTracks InstrumentTypeTokenMap (instrumentType s3) (tracks s3)
      in (result, s3\<lparr>compositionSubmittedPrompt := result\<rparr>))"

subsection \<open>Timeline merger on arrays with identity\<close>

text \<open>
  A JavaScript array is an object: \<^verbatim>\<open>slice\<close> makes a new array, while \<^verbatim>\<open>sort\<close>, \<^verbatim>\<open>push\<close> and
  \<^verbatim>\<open>splice\<close> change the array they are called on, and a \<^verbatim>\<open>for ... of\<close> loop reads its array
  again in every round. To tell the arrays the merge writes to from the arrays of the
  store, this section has lines 464-496 once more, on a heap of arrays. An address is the
  index of an array in the heap of its element type; a track object holds the address of
  its raw content. The objects in the arrays (tracks, messages) are values: the merge reads
  their fields and never assigns to one.
\<close>

record TrackCell =
  cellTrackId :: string
  cellMainInstrument :: string
  cellContent :: string
  cellRawContent :: nat
  cellOffsetTime :: int
  cellContentTime :: int

record Heap =
  trackArrays :: "TrackCell list list"
  numberArrays :: "int list list"
  messageArrays :: "MidiMessage list list"

text \<open>The track a track object stands for in a heap.\<close>

definition trackOf :: "Heap \<Rightarrow> TrackCell \<Rightarrow> Track" where
  "trackOf h cell =
     \<lparr>trackId = cellTrackId cell, mainInstrument = cellMainInstrument cell,
      content = cellContent cell, rawContent = messageArrays h ! cellRawContent cell,
      offsetTime = cellOffsetTime cell, contentTime = cellContentTime cell\<rparr>"

text \<open>
  The array operations of the merge. An array literal and \<^verbatim>\<open>slice\<close> allocate: the new array
  gets the next free address. The others update the array at the address in place.
\<close>

definition newNumberArray :: "int list \<Rightarrow> Heap \<Rightarrow> nat \<times> Heap" where
  "newNumberArray xs h = (length (numberArrays h), h\<lparr>numberArrays := numberArrays h @ [xs]\<rparr>)"

definition newMessageArray :: "MidiMessage list \<Rightarrow> Heap \<Rightarrow> nat \<times> Heap" where
  "newMessageArray xs h = (length (messageArrays h), h\<lparr>messageArrays := messageArrays h @ [xs]\<rparr>)"

definition sliceTrackArray :: "nat \<Rightarrow> Heap \<Rightarrow> nat \<times> Heap" where
  "sliceTrackArray a h =
     (length (trackArrays h), h\<lparr>trackArrays := trackArrays h @ [trackArrays h ! a]\<rparr>)"

definition sliceNumberArray :: "nat \<Rightarrow> Heap \<Rightarrow> nat \<times> Heap" where
  "sliceNumberArray a h =
     (length (numberArrays h), h\<lparr>numberArrays := numberArrays h @ [numberArrays h ! a]\<rparr>)"

definition sortTrackArray :: "nat \<Rightarrow> Heap \<Rightarrow> Heap" where
  "sortTrackArray a h =
     h\<lparr>trackArrays := (trackArrays h)[a := sort_key cellOffsetTime (trackArrays h ! a)]\<rparr>"

definition sortNumberArray :: "nat \<Rightarrow> Heap \<Rightarrow> Heap" where
  "sortNumberArray a h = h\<lparr>numberArrays := (numberArrays h)[a := sort (numberArrays h ! a)]\<rparr>"

definition pushNumber :: "nat \<Rightarrow> int \<Rightarrow> Heap \<Rightarrow> Heap" where
  "pushNumber a x h = h\<lparr>numberArrays := (numberArrays h)[a := numberArrays h ! a @ [x]]\<rparr>"

definition spliceNumber :: "nat \<Rightarrow> int \<Rightarrow> int \<Rightarrow> Heap \<Rightarrow> Heap" where
  "spliceNumber a start x h =
     h\<lparr>numberArrays := (numberArrays h)[a := splice start x (numberArrays h ! a)]\<rparr>"

definition spliceMessage :: "nat \<Rightarrow> int \<Rightarrow> MidiMessage \<Rightarrow> Heap \<Rightarrow> Heap" where
  "spliceMessage a start x h =
     h\<lparr>messageArrays := (messageArrays h)[a := splice start x (messageArrays h ! a)]\<rparr>"

text \<open>
  \<^verbatim>\<open>for (const x of array) body\<close>, from index \<open>i\<close> on: the array is read from the heap in every
  round, so a body that grows the array it iterates keeps the loop running. The result is
  \<open>None\<close> when the loop does not end.
\<close>

partial_function (option) forOf ::
  "(Heap \<Rightarrow> 'a list) \<Rightarrow> ('a \<Rightarrow> 's \<Rightarrow> Heap \<Rightarrow> ('s \<times> Heap) option) \<Rightarrow> nat \<Rightarrow> 's \<Rightarrow> Heap
     \<Rightarrow> ('s \<times> Heap) option" where
  "forOf array body i s h =
     (if i < length (array h) then
        Option.bind (body (array h ! i) s h) (\<lambda>(s', h'). forOf array body (i + 1) s' h')
      else Some (s, h))"

text \<open>The bodies of the inner and outer loops of the first pass (lines 466-475).\<close>

definition firstPassInner :: "nat \<Rightarrow> TrackCell \<Rightarrow> MidiMessage \<Rightarrow> int \<Rightarrow> Heap \<Rightarrow> (int \<times> Heap) option" where
  "firstPassInner timestamp track msg accContentTime h =
     (if messageType msg = ElapsedTime then
        (let accContentTime = accContentTime + msgValue msg
         in Some (accContentTime, pushNumber timestamp (cellOffsetTime track + accContentTime) h))
      else Some (accContentTime, h))"

definition firstPassBody :: "nat \<Rightarrow> TrackCell \<Rightarrow> unit \<Rightarrow> Heap \<Rightarrow> (unit \<times> Heap) option" where
  "firstPassBody timestamp track u h =
     (let h = pushNumber timestamp (cellOffsetTime track) h
      in Option.bind
           (forOf (\<lambda>h. messageArrays h ! cellRawContent track)
                  (firstPassInner timestamp track) 0 0 h)
           (\<lambda>(accContentTime, h). Some ((), h)))"

text \<open>The bodies of the inner and outer loops of the second pass (lines 483-496).\<close>

definition secondPassInner ::
  "nat \<Rightarrow> nat \<Rightarrow> TrackCell \<Rightarrow> MidiMessage \<Rightarrow> int \<times> int \<Rightarrow> Heap \<Rightarrow> ((int \<times> int) \<times> Heap) option" where
  "secondPassInner globalMessages sortedTimestamp track msg clock h =
     (let currentTime = fst clock; accContentTime = snd clock
      in if messageType msg = ElapsedTime then
           (let accContentTime = accContentTime + msgValue msg;
                currentTime = cellOffsetTime track + accContentTime
            in Some ((currentTime, accContentTime), h))
         else if messageType msg = NoteOn \<or> messageType msg = NoteOff then
           (let insertIndex = findIndex (\<lambda>t. t \<ge> currentTime) (numberArrays h ! sortedTimestamp);
                h = spliceMessage globalMessages (insertIndex + 1) msg h;
                h = spliceNumber sortedTimestamp (insertIndex + 1) 0 h
            in Some ((currentTime, accContentTime), h))
         else Some ((currentTime, accContentTime), h))"

definition secondPassBody :: "nat \<Rightarrow> nat \<Rightarrow> TrackCell \<Rightarrow> unit \<Rightarrow> Heap \<Rightarrow> (unit \<times> Heap) option" where
  "secondPassBody globalMessages sortedTimestamp track u h =
     Option.bind
       (forOf (\<lambda>h. messageArrays h ! cellRawContent track)
              (secondPassInner globalMessages sortedTimestamp track) 0 (cellOffsetTime track, 0) h)
       (\<lambda>(clock, h). Some ((), h))"

text \<open>
  Lines 464-496 on the heap; \<open>tracksRef\<close> is the address of \<^verbatim>\<open>commonStore.tracks\<close>. The \<^verbatim>\<open>reduce\<close>
  of lines 477-482 builds a new array in every round and reads \<^verbatim>\<open>sortedTimestamp\<close> only; the
  array it returns is allocated here in one step. The result is the content of
  \<^verbatim>\<open>globalMessages\<close> after the second pass, and the heap.
\<close>

definition mergeHeap :: "nat \<Rightarrow> Heap \<Rightarrow> (MidiMessage list \<times> Heap) option" where
  "mergeHeap tracksRef h0 =
     (let (timestamp, h1) = newNumberArray [] h0;
          (sortedTracks, h2) = sliceTrackArray tracksRef h1;
          h3 = sortTrackArray sortedTracks h2
      in Option.bind
           (forOf (\<lambda>h. trackArrays h ! sortedTracks) (firstPassBody timestamp) 0 () h3)
           (\<lambda>(u, h4).
              let (sortedTimestamp, h5) = sliceNumberArray timestamp h4;
                  h6 = sortNumberArray sortedTimestamp h5;
                  (globalMessages, h7) =
                     newMessageArray (skeletonMessages (numberArrays h6 ! sortedTimestamp)) h6
              in Option.bind
                   (forOf (\<lambda>h. trackArrays h ! sortedTracks)
                          (secondPassBody globalMessages sortedTimestamp) 0 () h7)
                   (\<lambda>(u, h8). Some (messageArrays h8 ! globalMessages, h8))))"

text \<open>A heap \<open>h'\<close> that has every array of \<open>h\<close> at its address with its content.\<close>

definition pristine :: "Heap \<Rightarrow> Heap \<Rightarrow> bool" where
  "pristine h h' =
     (take (length (trackArrays h)) (trackArrays h') = trackArrays h
      \<and> take (length (numberArrays h)) (numberArrays h') = numberArrays h
      \<and> take (length (messageArrays h)) (messageArrays h') = messageArrays h)"

text \<open>The rounds of the two inner loops as functions on lists, for the proofs.\<close>

definition pushStep :: "int \<Rightarrow> int \<times> int list \<Rightarrow> MidiMessage \<Rightarrow> int \<times> int list" where
  "pushStep off state msg =
     (if messageType msg = ElapsedTime then
        (fst state + msgValue msg, snd state @ [off + (fst state + msgValue msg)])
      else state)"

fun insertOne ::
  "int \<Rightarrow> int \<times> int \<times> MidiMessage list \<times> int list \<Rightarrow> MidiMessage
     \<Rightarrow> int \<times> int \<times> MidiMessage list \<times> int list" where
  "insertOne off (currentTime, acc, gm, st) msg =
     (if messageType msg = ElapsedTime then
        (off + (acc + msgValue msg), acc + msgValue msg, gm, st)
      else if messageType msg = NoteOn \<or> messageType msg = NoteOff then
        (let insertIndex = findIndex (\<lambda>t. t \<ge> currentTime) st
         in (currentTime, acc, splice (insertIndex + 1) msg gm, splice (insertIndex + 1) 0 st))
      else (currentTime, acc, gm, st))"

subsection \<open>Absolute times of a track's events\<close>

text \<open>
  What the merge is measured against. A note of a track sounds at the track's offset plus
  the elapsed-time deltas in front of it: \<open>timedNotes\<close> pairs every note message of a raw
  content with that absolute time, in the order of the content, and \<open>allTimedNotes\<close> does
  so for a list of tracks, track by track. \<open>instants\<close> lists the absolute times at which the
  elapsed-time messages of a raw content end; with the offset in front they are the
  timestamps the first pass collects for the track.
\<close>

fun timedNotes :: "int \<Rightarrow> MidiMessage list \<Rightarrow> (int \<times> MidiMessage) list" where
  "timedNotes now [] = []"
| "timedNotes now (msg # rest) =
     (if messageType msg = ElapsedTime then timedNotes (now + msgValue msg) rest
      else if messageType msg = NoteOn \<or> messageType msg = NoteOff then
        (now, msg) # timedNotes now rest
      else timedNotes now rest)"

definition allTimedNotes :: "Track list \<Rightarrow> (int \<times> MidiMessage) list" where
  "allTimedNotes trackList =
     concat (map (\<lambda>track. timedNotes (offsetTime track) (rawContent track)) trackList)"

fun instants :: "int \<Rightarrow> MidiMessage list \<Rightarrow> int list" where
  "instants now [] = []"
| "instants now (msg # rest) =
     (if messageType msg = ElapsedTime then
        (now + msgValue msg) # instants (now + msgValue msg) rest
      else instants now rest)"

definition allInstants :: "Track list \<Rightarrow> int list" where
  "allInstants trackList =
     concat (map (\<lambda>track. offsetTime track # instants (offsetTime track) (rawContent track))
                 trackList)"

text \<open>
  The notes of one instant, the note processed last first, and the time a list of messages
  waits in total.
\<close>

definition notesAt :: "int \<Rightarrow> (int \<times> MidiMessage) list \<Rightarrow> MidiMessage list" where
  "notesAt T ns = map snd (rev (filter (\<lambda>p. fst p = T) ns))"

definition elapsedSum :: "MidiMessage list \<Rightarrow> int" where
  "elapsedSum msgs = sum_list (map msgValue (filter (\<lambda>m. messageType m = ElapsedTime) msgs))"

text \<open>
  The merged list in closed form, with the parallel timestamp array at its side: every
  sorted timestamp contributes its wait entry; the first entry of an instant is followed by
  the notes of that instant, each with the placeholder 0.
\<close>

fun layout ::
  "int \<Rightarrow> int list \<Rightarrow> (int \<times> MidiMessage) list \<Rightarrow> (MidiMessage \<times> int) list" where
  "layout prev [] ns = []"
| "layout prev (t # ts) ns =
     (elapsedMessage (t - prev), t) # map (\<lambda>m. (m, 0)) (notesAt t ns)
       @ layout t ts (filter (\<lambda>p. fst p \<noteq> t) ns)"

text \<open>
  One round of the second pass on the two arrays, and the same round on the list of pairs
  of a message and its timestamp entry.
\<close>

definition insertStep ::
  "MidiMessage list \<times> int list \<Rightarrow> int \<times> MidiMessage \<Rightarrow> MidiMessage list \<times> int list" where
  "insertStep arrays timedNote =
     (let insertIndex = findIndex (\<lambda>t. t \<ge> fst timedNote) (snd arrays)
      in (splice (insertIndex + 1) (snd timedNote) (fst arrays),
          splice (insertIndex + 1) 0 (snd arrays)))"

definition insertPair ::
  "int \<Rightarrow> MidiMessage \<Rightarrow> (MidiMessage \<times> int) list \<Rightarrow> (MidiMessage \<times> int) list" where
  "insertPair T m z = splice (findIndex (\<lambda>p. T \<le> snd p) z + 1) (m, 0) z"

text \<open>
  The times of the data model: no track starts before 0 and no elapsed-time message runs
  backwards.
\<close>

definition nonnegTimes :: "Track list \<Rightarrow> bool" where
  "nonnegTimes trackList =
     (\<forall>track \<in> set trackList. 0 \<le> offsetTime track \<and>
        (\<forall>msg \<in> set (rawContent track). messageType msg = ElapsedTime \<longrightarrow> 0 \<le> msgValue msg))"

subsection \<open>Reading wait tokens back\<close>

text \<open>
  The duration a token string stands for, used to state what the encoder preserves: the
  string is cut at the spaces, and a token \<^verbatim>\<open>t<n>\<close> stands for \<open>n\<close> time units.
\<close>

definition digitVal :: "char \<Rightarrow> nat" where
  "digitVal c = of_char c - 48"

definition parseDecimal :: "string \<Rightarrow> nat" where
  "parseDecimal s = foldl (\<lambda>acc c. 10 * acc + digitVal c) 0 s"

fun splitTokens :: "string \<Rightarrow> string \<Rightarrow> string list" where
  "splitTokens cur [] = (if cur = [] then [] else [cur])"
| "splitTokens cur (c # cs) =
     (if c = CHR '' '' then cur # splitTokens [] cs else splitTokens (cur @ [c]) cs)"

fun waitUnits :: "string \<Rightarrow> nat" where
  "waitUnits [] = 0"
| "waitUnits (c # ds) = (if c = CHR ''t'' then parseDecimal ds else 0)"

subsection \<open>Example values\<close>

definition elapsedTime :: "int \<Rightarrow> MidiMessage" where
  "elapsedTime d =
     \<lparr>messageType = ElapsedTime, noteNumber = 0, velocity = 0, msgValue = d, instrument = 0\<rparr>"

definition noteOn :: "int \<Rightarrow> int \<Rightarrow> MidiMessage" where
  "noteOn n v =
     \<lparr>messageType = NoteOn, noteNumber = n, velocity = v, msgValue = 0, instrument = 0\<rparr>"

definition controlChange :: "int \<Rightarrow> MidiMessage" where
  "controlChange v =
     \<lparr>messageType = ControlChange, noteNumber = 0, velocity = 0, msgValue = v, instrument = 0\<rparr>"

definition mkTrack :: "string \<Rightarrow> int \<Rightarrow> MidiMessage list \<Rightarrow> Track" where
  "mkTrack i off raw =
     \<lparr>trackId = i, mainInstrument = '''', content = '''', rawContent = raw,
      offsetTime = off, contentTime = 0\<rparr>"

definition emptyStore :: Store where
  "emptyStore = \<lparr>tracks = [], trackTotalTime = 5000, trackPlayStartTime = 0,
     recordingTrackId = '''', playingTrackId = '''', recordingContent = '''',
     recordingRawContent = [], instrumentType = 0, activeMidiDeviceIndex = - 1,
     compositionSubmittedPrompt = '''', dropRecordingTime = False, selectedTrackId = ''''\<rparr>"

definition demoStore :: Store where
  "demoStore = emptyStore\<lparr>tracks := [mkTrack ''a'' 160 []]\<rparr>"

definition idleStore :: Store where
  "idleStore = emptyStore\<lparr>tracks := [mkTrack ''a'' 0 [], mkTrack ''b'' 0 []]\<rparr>"

definition recordingStore :: Store where
  "recordingStore = emptyStore\<lparr>tracks := [mkTrack ''a'' 0 [], mkTrack ''b'' 0 []],
     recordingTrackId := ''a'', recordingRawContent := [noteOn 60 64],
     recordingContent := ''pi:3c:7 ''\<rparr>"

text \<open>
  The store after a click on the record button of track \<^verbatim>\<open>b\<close> while track \<^verbatim>\<open>a\<close> is being recorded
  and no device is selected.
\<close>

definition failedStartStore :: Store where
  "failedStartStore = snd (recordOnClick 5000 (mkTrack ''b'' 0 []) recordingStore)"

text \<open>
  A store after one recording: with a device selected and instrument 0 on, the record
  button of track \<^verbatim>\<open>a\<close> is clicked, the first elapsed time is dropped, note 60 arrives, and
  the button is clicked again to stop.
\<close>

definition recordedStore :: Store where
  "recordedStore =
     (let s0 = emptyStore\<lparr>tracks := [mkTrack ''a'' 0 []], activeMidiDeviceIndex := 0\<rparr>;
          s1 = snd (recordOnClick 5000 (tracks s0 ! 0) s0);
          s2 = midiMessageHandler [''Piano'', ''Drum''] [''pi'', ''p''] (elapsedTime 1234) s1;
          s3 = midiMessageHandler [''Piano'', ''Drum''] [''pi'', ''p''] (noteOn 60 64) s2
      in snd (recordOnClick 5000 (tracks s3 ! 0) s3))"

definition demoHeap :: Heap where
  "demoHeap = \<lparr>trackArrays = [[
       \<lparr>cellTrackId = ''b'', cellMainInstrument = '''', cellContent = '''', cellRawContent = 1,
         cellOffsetTime = 500, cellContentTime = 0\<rparr>,
       \<lparr>cellTrackId = ''a'', cellMainInstrument = '''', cellContent = '''', cellRawContent = 0,
         cellOffsetTime = 0, cellContentTime = 500\<rparr>]],
     numberArrays = [],
     messageArrays = [[elapsedTime 500, noteOn 60 64], [noteOn 64 64]]\<rparr>"

definition demoTracks :: "Track list" where
  "demoTracks =
     [mkTrack ''a'' 0 [elapsedTime 500, noteOn 60 64], mkTrack ''b'' 500 [noteOn 64 64]]"

section \<open>Properties\<close>

subsection \<open>Velocity quantizer\<close>

lemma velocityToBin_closed:
  "velocityToBin v = \<lceil>22 * (1 - (1/2) powr (real_of_int (max 0 (min v 127)) / 128))\<rceil>"
proof -
  have e: "(128 * ((x - 1) / (0.5 - 1))) / (128 / 11) = 22 * (1 - x)" for x :: real
    by (simp add: field_simps)
  show ?thesis
    unfolding velocityToBin_def velocityEvents_def velocityBins_def velocityExp_def Let_def
    by (subst e [symmetric]) simp
qed

lemma half_powr: "(1/2::real) powr x = 2 powr (- x)"
  by (simp add: powr_minus powr_divide inverse_eq_divide)

lemma ceiling_count:
  fixes y :: real
  assumes "0 \<le> y" "y \<le> real n"
  shows "\<lceil>y\<rceil> = int (length (filter (\<lambda>k. real k < y) [0..<n]))"
proof -
  define c where "c = nat \<lceil>y\<rceil>"
  have c0: "0 \<le> \<lceil>y\<rceil>" using assms(1) by (simp add: ceiling_le_iff)
  have cn: "c \<le> n" using assms(2) unfolding c_def by (simp add: ceiling_le_iff nat_le_iff)
  have "real k < y \<longleftrightarrow> k < c" for k
  proof -
    have "real k < y \<longleftrightarrow> int k < \<lceil>y\<rceil>" by (simp add: less_ceiling_iff)
    also have "\<dots> \<longleftrightarrow> k < c" unfolding c_def using c0 by linarith
    finally show ?thesis .
  qed
  then have "filter (\<lambda>k. real k < y) [0..<n] = filter (\<lambda>k. k < c) [0..<n]" by simp
  also have "\<dots> = [0..<c]" using cn
    by (induction n) (auto simp: le_Suc_eq)
  finally show ?thesis using c0 by (simp add: c_def)
qed

lemma powr_128th:
  "((2::real) powr (- (real c / 128))) ^ 128 = 1 / 2 ^ c"
proof -
  have "((2::real) powr (- (real c / 128))) ^ 128 = (2 powr (- (real c / 128))) powr (real (128::nat))"
    by (subst powr_realpow) simp_all
  also have "\<dots> = 2 powr (- real c)"
    by (simp add: powr_powr)
  also have "\<dots> = 1 / 2 ^ c"
    by (simp add: powr_minus powr_realpow inverse_eq_divide)
  finally show ?thesis .
qed

lemma bin_threshold:
  assumes "k < 22"
  shows "real k < 22 * (1 - (1/2) powr (real c / 128)) \<longleftrightarrow>
         (22::nat) ^ 128 < (22 - k) ^ 128 * 2 ^ c"
proof -
  define x :: real where "x = 2 powr (- (real c / 128))"
  define q :: real where "q = real (22 - k) / 22"
  have x0: "0 < x" by (simp add: x_def)
  have q0: "0 < q" using assms by (simp add: q_def)
  have "real k < 22 * (1 - (1/2) powr (real c / 128)) \<longleftrightarrow> x < q"
    using assms unfolding x_def q_def half_powr by (simp add: field_simps of_nat_diff)
  also have "\<dots> \<longleftrightarrow> x ^ 128 < q ^ 128"
    using x0 q0 power_strict_mono [of x q 128] power_less_imp_less_base [of x 128 q]
    by (auto simp: less_imp_le)
  also have "x ^ 128 = 1 / 2 ^ c" unfolding x_def by (rule powr_128th)
  also have "q ^ 128 = real ((22 - k) ^ 128) / real (22 ^ 128)"
    unfolding q_def by (simp add: power_divide)
  also have "(1 / 2 ^ c < real ((22 - k) ^ 128) / real (22 ^ 128)) \<longleftrightarrow>
             real ((22::nat) ^ 128) < real ((22 - k) ^ 128 * 2 ^ c)"
    by (simp add: field_simps)
  also have "\<dots> \<longleftrightarrow> (22::nat) ^ 128 < (22 - k) ^ 128 * 2 ^ c"
    by (simp only: of_nat_less_iff)
  finally show ?thesis .
qed

lemma bin_threshold_int:
  assumes "k < 22"
  shows "real k < 22 * (1 - (1/2) powr (real c / 128)) \<longleftrightarrow>
         (22::int) ^ 128 < (22 - int k) ^ 128 * 2 ^ c"
proof -
  have "((22::nat) ^ 128 < (22 - k) ^ 128 * 2 ^ c) \<longleftrightarrow>
        (int ((22::nat) ^ 128) < int ((22 - k) ^ 128 * 2 ^ c))"
    by (simp only: of_nat_less_iff)
  also have "int ((22 - k) ^ 128 * 2 ^ c) = (22 - int k) ^ 128 * 2 ^ c"
    using assms by (simp add: of_nat_diff)
  also have "int ((22::nat) ^ 128) = (22::int) ^ 128" by simp
  finally show ?thesis using bin_threshold [OF assms, of c] by simp
qed

lemma quantizer_range:
  assumes "0 \<le> c" "c \<le> (127::int)"
  shows "0 \<le> 22 * (1 - (1/2) powr (real_of_int c / 128))"
    and "22 * (1 - (1/2) powr (real_of_int c / 128)) \<le> 11"
proof -
  have "(2::real) powr (- (real_of_int c / 128)) \<le> 2 powr 0"
    using assms by (intro powr_mono) simp_all
  then show "0 \<le> 22 * (1 - (1/2) powr (real_of_int c / 128))"
    unfolding half_powr by simp
  have "(2::real) powr (- 1) \<le> 2 powr (- (real_of_int c / 128))"
    using assms by (intro powr_mono) simp_all
  then show "22 * (1 - (1/2) powr (real_of_int c / 128)) \<le> 11"
    unfolding half_powr by (simp add: powr_minus)
qed

text \<open>
  The quantizer in integer arithmetic: the bin of a velocity \<open>v\<close> is the number of thresholds
  \<open>k < 11\<close> below \<open>22 * (1 - 2 powr (- v / 128))\<close>, and \<open>k\<close> is below that value exactly when
  \<open>22 ^ 128 < (22 - k) ^ 128 * 2 ^ v\<close>. The real value is 0 at velocity 0 and is never an
  integer at the velocities 1 to 127, so the ceiling is the same for every computation that
  is close enough to the exact value.
\<close>

lemma velocityToBin_code [code]:
  "velocityToBin v =
     int (length (filter (\<lambda>k. (22::int) ^ 128 < (22 - int k) ^ 128 * 2 ^ nat (max 0 (min v 127)))
                  [0..<11]))"
proof -
  define c where "c = max 0 (min v 127)"
  have c: "0 \<le> c" "c \<le> 127" by (simp_all add: c_def)
  have rc: "real_of_int c = real (nat c)" using c by simp
  let ?y = "22 * (1 - (1/2) powr (real (nat c) / 128))"
  have "velocityToBin v = \<lceil>?y\<rceil>"
    unfolding velocityToBin_closed c_def [symmetric] rc ..
  also have "\<dots> = int (length (filter (\<lambda>k. real k < ?y) [0..<11]))"
    using quantizer_range [OF c] unfolding rc by (intro ceiling_count) simp_all
  also have "filter (\<lambda>k. real k < ?y) [0..<11] =
      filter (\<lambda>k. (22::int) ^ 128 < (22 - int k) ^ 128 * 2 ^ nat c) [0..<11]"
  proof (rule filter_cong)
    fix k assume "k \<in> set [0..<11]"
    then have "k < 22" by simp
    then show "(real k < ?y) = ((22::int) ^ 128 < (22 - int k) ^ 128 * 2 ^ nat c)"
      by (rule bin_threshold_int)
  qed (rule refl)
  finally show ?thesis unfolding c_def .
qed

lemma velocityToBin_range: "0 \<le> velocityToBin v \<and> velocityToBin v \<le> 11"
proof -
  define c where "c = max 0 (min v 127)"
  have c: "0 \<le> c" "c \<le> 127" by (simp_all add: c_def)
  show ?thesis
    unfolding velocityToBin_closed c_def [symmetric]
    using quantizer_range [OF c] by (simp add: ceiling_le_iff le_ceiling_iff)
qed

text \<open>
  Claim C7. With 12 bins, range 128 and exponent 0.5, the quantizer maps velocity 0 to
  bin 0 and the maximum velocity 127 to bin 11, which is \<open>velocityBins - 1\<close>, and the bin of
  every integer velocity lies between 0 and \<open>velocityBins - 1\<close>.
\<close>

theorem velocity_bins_endpoints_and_range:
  "velocityToBin 0 = 0 \<and> velocityToBin 127 = velocityBins - 1
   \<and> (\<forall>v. 0 \<le> velocityToBin v \<and> velocityToBin v \<le> velocityBins - 1)"
proof -
  have "velocityToBin 0 = 0" by code_simp
  moreover have "velocityToBin 127 = 11" by code_simp
  ultimately show ?thesis using velocityToBin_range by (simp add: velocityBins_def)
qed

text \<open>
  Claim C8. The quantizer is monotonic: a velocity that is not smaller has a bin that is
  not smaller. (As a function of its argument alone it gives the same bin for the same
  velocity.)
\<close>

theorem velocity_bins_monotone:
  "v1 \<le> v2 \<Longrightarrow> velocityToBin v1 \<le> velocityToBin v2"
proof -
  assume le: "v1 \<le> v2"
  define c1 where "c1 = max 0 (min v1 127)"
  define c2 where "c2 = max 0 (min v2 127)"
  have "c1 \<le> c2" using le by (simp add: c1_def c2_def)
  then have "(2::real) powr (- (real_of_int c2 / 128)) \<le> 2 powr (- (real_of_int c1 / 128))"
    by (intro powr_mono) simp_all
  then have "22 * (1 - (1/2) powr (real_of_int c1 / 128))
      \<le> 22 * (1 - (1/2) powr (real_of_int c2 / 128))"
    unfolding half_powr by simp
  then show ?thesis
    unfolding velocityToBin_closed c1_def [symmetric] c2_def [symmetric]
    by (rule ceiling_mono)
qed

theorem velocity_bins_monotone_witness:
  "(10::int) \<le> 100 \<and> velocityToBin 10 = 2 \<and> velocityToBin 100 = 10
   \<and> velocityToBin 10 \<le> velocityToBin 100"
proof -
  have a: "(10::int) \<le> 100" by simp
  have b: "velocityToBin 10 = 2" by code_simp
  have c: "velocityToBin 100 = 10" by code_simp
  show ?thesis using velocity_bins_monotone [OF a] b c by simp
qed

subsection \<open>Token encoder: elapsed time\<close>

lemma digit_cases: "d < 10 \<Longrightarrow> d \<in> {0, 1, 2, 3, 4, 5, 6, 7, 8, 9::nat}"
  by auto

lemma digitVal_digitChar: "d < 10 \<Longrightarrow> digitVal (digitChar d) = d"
  using digit_cases [of d] by (auto simp: digitVal_def digitChar_def)

lemma digitChar_not_space: "d < 10 \<Longrightarrow> digitChar d \<noteq> CHR '' ''"
  using digit_cases [of d] by (auto simp: digitChar_def)

lemma parseDecimal_snoc: "parseDecimal (s @ [c]) = 10 * parseDecimal s + digitVal c"
  by (simp add: parseDecimal_def)

lemma parseDecimal_natToString: "parseDecimal (natToString 10 n) = n"
proof (induction "10::nat" n rule: natToString.induct)
  case (1 n)
  show ?case
  proof (cases "n < 10")
    case True
    then show ?thesis
      by (subst natToString.simps) (simp add: parseDecimal_def digitVal_digitChar)
  next
    case False
    then have "parseDecimal (natToString 10 (n div 10)) = n div 10"
      using 1 by simp
    with False show ?thesis
      by (subst natToString.simps) (simp add: parseDecimal_snoc digitVal_digitChar)
  qed
qed

lemma natToString_no_space: "CHR '' '' \<notin> set (natToString 10 n)"
proof (induction "10::nat" n rule: natToString.induct)
  case (1 n)
  show ?case
  proof (cases "n < 10")
    case True
    then show ?thesis
      using digitChar_not_space [of n] by (subst natToString.simps) auto
  next
    case False
    then have "CHR '' '' \<notin> set (natToString 10 (n div 10))"
      using 1 by simp
    moreover have "digitChar (n mod 10) \<noteq> CHR '' ''"
      by (rule digitChar_not_space) simp
    ultimately show ?thesis using False
      by (subst natToString.simps) auto
  qed
qed

lemma splitTokens_acc:
  "CHR '' '' \<notin> set w \<Longrightarrow> splitTokens cur (w @ CHR '' '' # rest) = (cur @ w) # splitTokens [] rest"
  by (induction w arbitrary: cur) auto

lemma splitTokens_concat:
  "(\<And>w. w \<in> set ws \<Longrightarrow> CHR '' '' \<notin> set w) \<Longrightarrow>
   splitTokens [] (concat (map (\<lambda>w. w @ '' '') ws)) = ws"
proof (induction ws)
  case Nil
  then show ?case by simp
next
  case (Cons w ws)
  then show ?case
    using splitTokens_acc [of w "[]" "concat (map (\<lambda>w. w @ '' '') ws)"] by simp
qed

lemma waitLoop_replicate:
  "waitLoop i num ret = ret @ concat (replicate (nat (num - i)) ''t125 '')"
proof (induction i num ret rule: waitLoop.induct)
  case (1 i num ret)
  show ?case
  proof (cases "i < num")
    case True
    then have n: "nat (num - i) = Suc (nat (num - (i + 1)))" by simp
    show ?thesis
      using True 1 by (subst waitLoop.simps) (simp add: n del: waitLoop.simps)
  next
    case False
    then show ?thesis by (subst waitLoop.simps) simp
  qed
qed

lemma token_elapsed:
  assumes "messageType msg = ElapsedTime"
  shows "midiMessageToToken tm it msg =
    (let units = mathRound (real_of_int (msgValue msg) / 8) in
      concat (replicate (nat (units div 125)) ''t125 '') @
      (if 0 < units mod 125 then ''t'' @ numberToString 10 (units mod 125) @ '' '' else []))"
proof -
  have r: "u - u div 125 * 125 = u mod 125" for u :: int
    by (simp add: minus_div_mult_eq_mod)
  have r2: "(u div 125 * 125 < u) = (0 < u mod 125)" for u :: int
    using r [of u] by linarith
  show ?thesis
    using assms
    by (simp add: midiMessageToToken_def Let_def minimalMoveTime_def waitLoop_replicate r r2
        del: waitLoop.simps)
qed

lemma token_elapsed_words:
  assumes "messageType msg = ElapsedTime"
  shows "midiMessageToToken tm it msg =
    (let units = mathRound (real_of_int (msgValue msg) / 8) in
      concat (map (\<lambda>w. w @ '' '')
        (replicate (nat (units div 125)) ''t125'' @
         (if 0 < units mod 125 then [''t'' @ numberToString 10 (units mod 125)] else []))))"
  unfolding token_elapsed [OF assms] Let_def
  by (simp add: map_replicate_const [symmetric] del: replicate.simps)

lemma waitUnits_max: "waitUnits ''t125'' = 125"
  by (simp add: parseDecimal_def digitVal_def)

lemma waitUnits_remainder:
  "0 \<le> r \<Longrightarrow> waitUnits (CHR ''t'' # numberToString 10 r) = nat r"
  by (simp add: numberToString_def parseDecimal_natToString del: natToString.simps)

lemma mathRound_nonneg: "0 \<le> x \<Longrightarrow> 0 \<le> mathRound x"
  by (simp add: mathRound_def)

text \<open>
  Claim C4. For an elapsed-time message with \<open>value = d \<ge> 0\<close> and \<open>units = round (d / 8)\<close>, the
  encoder emits \<open>units div 125\<close> tokens \<^verbatim>\<open>t125\<close> and then one token \<^verbatim>\<open>t<r>\<close> for the remainder
  \<open>r = units mod 125\<close> only when \<open>r\<close> is positive. Read back, the wait tokens sum up to \<open>units\<close>
  exactly, and no token stands for more than 125 units.
\<close>

theorem elapsed_time_wait_tokens:
  fixes msg :: MidiMessage and tm :: "string list" and it :: int
  assumes "messageType msg = ElapsedTime" and "0 \<le> msgValue msg"
  defines "units \<equiv> mathRound (real_of_int (msgValue msg) / 8)"
  defines "toks \<equiv> splitTokens [] (midiMessageToToken tm it msg)"
  shows "midiMessageToToken tm it msg =
           concat (replicate (nat (units div 125)) ''t125 '') @
           (if 0 < units mod 125 then ''t'' @ numberToString 10 (units mod 125) @ '' '' else [])
         \<and> toks = replicate (nat (units div 125)) ''t125'' @
                  (if 0 < units mod 125 then [''t'' @ numberToString 10 (units mod 125)] else [])
         \<and> int (sum_list (map waitUnits toks)) = units
         \<and> (\<forall>tok \<in> set toks. waitUnits tok \<le> 125)"
proof -
  let ?ws = "replicate (nat (units div 125)) ''t125'' @
             (if 0 < units mod 125 then [''t'' @ numberToString 10 (units mod 125)] else [])"
  have u0: "0 \<le> units"
    unfolding units_def using assms(2) by (intro mathRound_nonneg) simp
  have r0: "0 \<le> units mod 125" by simp
  have r1: "units mod 125 < 125" by simp
  have nospace: "CHR '' '' \<notin> set w" if "w \<in> set ?ws" for w
  proof -
    from that have "w = ''t125'' \<or> w = ''t'' @ numberToString 10 (units mod 125)"
      by (auto split: if_splits)
    then show ?thesis
      using natToString_no_space [of "nat (units mod 125)"] r0
      by (auto simp: numberToString_def simp del: natToString.simps)
  qed
  have str: "midiMessageToToken tm it msg = concat (map (\<lambda>w. w @ '' '') ?ws)"
    using token_elapsed_words [OF assms(1), of tm it] unfolding Let_def units_def .
  have toks: "toks = ?ws"
    unfolding toks_def str using nospace by (rule splitTokens_concat)
  have sum: "int (sum_list (map waitUnits ?ws)) = units"
  proof -
    have "sum_list (map waitUnits ?ws) = nat (units div 125) * 125 + nat (units mod 125)"
      using r0 by (simp add: sum_list_replicate waitUnits_max waitUnits_remainder
          del: waitUnits.simps)
    moreover have "0 \<le> units div 125" using u0 by (simp add: pos_imp_zdiv_nonneg_iff)
    ultimately show ?thesis using r0 by (simp add: nat_mult_distrib)
  qed
  have bound: "waitUnits w \<le> 125" if "w \<in> set ?ws" for w
  proof -
    from that have "w = ''t125'' \<or> w = ''t'' @ numberToString 10 (units mod 125)"
      by (auto split: if_splits)
    then show ?thesis
      using waitUnits_max waitUnits_remainder [OF r0] r1 by auto
  qed
  show ?thesis
    using token_elapsed [OF assms(1), of tm it] toks sum bound
    unfolding Let_def units_def by simp
qed

theorem elapsed_time_wait_tokens_witness:
  "midiMessageToToken [''p''] 0 (elapsedTime 2500) = ''t125 t125 t63 ''
   \<and> splitTokens [] (midiMessageToToken [''p''] 0 (elapsedTime 2500)) = [''t125'', ''t125'', ''t63'']
   \<and> int (sum_list (map waitUnits (splitTokens [] (midiMessageToToken [''p''] 0 (elapsedTime 2500)))))
       = 313"
proof -
  have a: "messageType (elapsedTime 2500) = ElapsedTime" by (simp add: elapsedTime_def)
  have b: "0 \<le> msgValue (elapsedTime 2500)" by (simp add: elapsedTime_def)
  have v: "msgValue (elapsedTime 2500) = 2500" by (simp add: elapsedTime_def)
  have m: "mathRound (real_of_int 2500 / 8) = 313" by (simp add: mathRound_def)
  have n: "numberToString 10 63 = ''63''" by code_simp
  have d: "nat (313 div 125) = Suc (Suc 0)" "(313::int) mod 125 = 63" by simp_all
  show ?thesis
    using elapsed_time_wait_tokens [OF a b, of "[''p'']" 0] unfolding v m d
    by (simp add: n parseDecimal_def digitVal_def)
qed

subsection \<open>Token encoder: out-of-range input\<close>

text \<open>
  Claim C6, as the code has it. Only the velocity is clamped: for every note message, any
  note number and any integer velocity, the token is the token of the message with the
  velocity clamped into 0..127. The note number is written in hexadecimal as it is, and a
  control change selects the instrument \<open>round (value / 127 * (N - 1))\<close> of \<open>N\<close> instruments,
  whatever the value. The encoder and the handler are total functions, so no input makes
  them fail.
\<close>

theorem velocity_clamped_before_encoding:
  "midiMessageToToken tm sel (msg\<lparr>velocity := v\<rparr>)
     = midiMessageToToken tm sel (msg\<lparr>velocity := max 0 (min v 127)\<rparr>)
   \<and> midiMessageToToken tm sel (noteOn n v)
     = tableLookup tm sel @ '':'' @ numberToString 16 n @ '':''
         @ numberToString 16 (velocityToBin (max 0 (min v 127))) @ '' ''
   \<and> instrumentType (midiMessageHandler names tm (controlChange c) s)
     = mathRound (real_of_int c / 127 * real_of_int (int (length names) - 1))"
proof -
  have eq: "velocityToBin v = velocityToBin (max 0 (min v 127))"
    unfolding velocityToBin_closed by simp
  then have "midiMessageToToken tm sel (msg\<lparr>velocity := v\<rparr>)
     = midiMessageToToken tm sel (msg\<lparr>velocity := max 0 (min v 127)\<rparr>)"
    by (simp add: midiMessageToToken_def Let_def)
  moreover have "midiMessageToToken tm sel (noteOn n v)
     = tableLookup tm sel @ '':'' @ numberToString 16 n @ '':''
         @ numberToString 16 (velocityToBin (max 0 (min v 127))) @ '' ''"
    using eq by (simp add: midiMessageToToken_def noteOn_def Let_def)
  moreover have "instrumentType (midiMessageHandler names tm (controlChange c) s)
     = mathRound (real_of_int c / 127 * real_of_int (int (length names) - 1))"
    by (simp add: midiMessageHandler_def controlChange_def)
  ultimately show ?thesis by blast
qed

text \<open>
  The note number and the value of a control change are not clamped: note 128 is encoded
  as \<^verbatim>\<open>80\<close> and not as the \<^verbatim>\<open>7f\<close> of note 127, and with two instruments the control value 254
  selects instrument 2, where the clamped value 127 selects instrument 1.
\<close>

theorem note_and_control_value_not_clamped:
  "midiMessageToToken [''pi'', ''p''] 0 (noteOn 128 64) = ''pi:80:7 ''
   \<and> midiMessageToToken [''pi'', ''p''] 0 (noteOn (max 0 (min 128 127)) 64) = ''pi:7f:7 ''
   \<and> midiMessageToToken [''pi'', ''p''] 0 (noteOn 128 64)
       \<noteq> midiMessageToToken [''pi'', ''p''] 0 (noteOn (max 0 (min 128 127)) 64)
   \<and> instrumentType (midiMessageHandler [''Piano'', ''Drum''] [''pi'', ''p'']
        (controlChange 254) emptyStore) = 2
   \<and> instrumentType (midiMessageHandler [''Piano'', ''Drum''] [''pi'', ''p'']
        (controlChange (max 0 (min 254 127))) emptyStore) = 1"
  by code_simp

subsection \<open>Moving a track\<close>

lemma findIndex_ge: "- 1 \<le> findIndex P xs"
  by (induction xs) (auto simp: Let_def)

lemma findIndex_found:
  "0 \<le> findIndex P xs \<Longrightarrow> nat (findIndex P xs) < length xs \<and> P (xs ! nat (findIndex P xs))"
proof (induction xs)
  case Nil
  then show ?case by simp
next
  case (Cons x xs)
  show ?case
  proof (cases "P x")
    case True
    then show ?thesis by simp
  next
    case False
    with Cons.prems have nn: "0 \<le> findIndex P xs"
      by (auto simp: Let_def split: if_splits)
    with Cons.IH have "nat (findIndex P xs) < length xs \<and> P (xs ! nat (findIndex P xs))"
      by simp
    with False nn show ?thesis
      by (simp add: Let_def nat_add_distrib)
  qed
qed

lemma findIndex_exists: "\<exists>x \<in> set xs. P x \<Longrightarrow> 0 \<le> findIndex P xs"
proof (induction xs)
  case Nil
  then show ?case by simp
next
  case (Cons a xs)
  show ?case
  proof (cases "P a")
    case True
    then show ?thesis by simp
  next
    case False
    with Cons.prems have "\<exists>x \<in> set xs. P x" by simp
    with Cons.IH have "0 \<le> findIndex P xs" by simp
    with False show ?thesis by (simp add: Let_def)
  qed
qed

lemma refresh_tracks [simp]: "tracks (refreshTracksTotalTime m s) = tracks s"
  by (simp add: refreshTracksTotalTime_def)

lemma foldl_max_ge: "x \<in> set xs \<Longrightarrow> x \<le> foldl max (m::int) xs"
proof (induction xs arbitrary: m)
  case Nil
  then show ?case by simp
next
  case (Cons a xs)
  have mono: "m \<le> foldl max m ys" for m :: int and ys
    by (induction ys arbitrary: m) (auto intro: order_trans [OF max.cobounded1])
  show ?case
  proof (cases "x = a")
    case True
    then show ?thesis using mono [of "max m a" xs] by simp
  next
    case False
    with Cons show ?thesis by simp
  qed
qed

lemma refresh_total_ge:
  "t \<in> set (tracks s) \<Longrightarrow>
     offsetTime t + contentTime t \<le> trackTotalTime (refreshTracksTotalTime m s)"
  by (simp add: refreshTracksTotalTime_def foldl_max_ge)

text \<open>
  Claim C9. A move of a track applies the requested change of the offset clamped to the
  range from \<open>- offsetTime\<close> to \<open>trackTotalTime - offsetTime\<close>: the moved track gets the offset
  \<open>offsetTime + min (max requested (- offsetTime)) (trackTotalTime - offsetTime)\<close>, where
  \<open>requested\<close> is the change the drag asks for, and no other track changes. So a request
  inside the range is applied as it is, a request below the range moves the track to 0, and
  a request above the range moves it to the total time; after the move the offset lies
  between 0 and the total time of the timeline at the moment of the move, and no move makes
  an offset negative. The total time is never negative in the editor: it is at least the
  minimal total time. The offset is also within the total time as it is recomputed after
  the move, for a track whose content time is not negative.
\<close>

theorem move_track_offset_clamped:
  fixes m :: int and ident :: string and delta scale :: real and s :: Store
  assumes "\<exists>t \<in> set (tracks s). trackId t = ident" and "0 \<le> trackTotalTime s"
  defines "i \<equiv> nat (findIndex (\<lambda>t. trackId t = ident) (tracks s))"
  defines "old \<equiv> offsetTime (tracks s ! i)"
  defines "requested \<equiv> requestedChange delta scale"
  defines "applied \<equiv> min (max requested (- old)) (trackTotalTime s - old)"
  shows "\<exists>s'. trackOnStop m ident delta scale s = Some s'
       \<and> i < length (tracks s) \<and> trackId (tracks s ! i) = ident
       \<and> tracks s' = (tracks s)[i := (tracks s ! i)\<lparr>offsetTime := old + applied\<rparr>]
       \<and> offsetTime (tracks s' ! i) = old + applied
       \<and> applied = (if requested < - old then - old
                    else if trackTotalTime s - old < requested then trackTotalTime s - old
                    else requested)
       \<and> - old \<le> applied \<and> applied \<le> trackTotalTime s - old
       \<and> 0 \<le> offsetTime (tracks s' ! i)
       \<and> offsetTime (tracks s' ! i) \<le> trackTotalTime s
       \<and> (0 \<le> contentTime (tracks s ! i) \<longrightarrow> offsetTime (tracks s' ! i) \<le> trackTotalTime s')"
proof -
  have nn: "0 \<le> findIndex (\<lambda>t. trackId t = ident) (tracks s)"
    using assms(1) by (intro findIndex_exists) simp
  from findIndex_found [OF nn]
  have il: "i < length (tracks s)" and ii: "trackId (tracks s ! i) = ident"
    unfolding i_def by simp_all
  define moved where "moved = (tracks s)[i := (tracks s ! i)\<lparr>offsetTime := old + applied\<rparr>]"
  define s' where "s' = refreshTracksTotalTime m (s\<lparr>tracks := moved\<rparr>)"
  have run: "trackOnStop m ident delta scale s = Some s'"
    using nn
    by (simp add: trackOnStop_def Let_def s'_def moved_def applied_def requested_def old_def
        i_def)
  have tr: "tracks s' = moved" by (simp add: s'_def)
  with il have off: "offsetTime (tracks s' ! i) = old + applied"
    and con: "contentTime (tracks s' ! i) = contentTime (tracks s ! i)"
    by (simp_all add: moved_def)
  have cases: "applied = (if requested < - old then - old
                    else if trackTotalTime s - old < requested then trackTotalTime s - old
                    else requested)"
    using assms(2) by (simp add: applied_def)
  have bounds: "- old \<le> applied" "applied \<le> trackTotalTime s - old"
    using assms(2) by (simp_all add: applied_def)
  have "i < length moved" using il by (simp add: moved_def)
  then have "moved ! i \<in> set moved" by (rule nth_mem)
  then have "moved ! i \<in> set (tracks (s\<lparr>tracks := moved\<rparr>))" by simp
  from refresh_total_ge [OF this, of m]
  have "offsetTime (moved ! i) + contentTime (moved ! i) \<le> trackTotalTime s'"
    unfolding s'_def .
  then have "offsetTime (tracks s' ! i) + contentTime (tracks s' ! i) \<le> trackTotalTime s'"
    unfolding tr .
  then have after: "0 \<le> contentTime (tracks s ! i) \<longrightarrow>
      offsetTime (tracks s' ! i) \<le> trackTotalTime s'"
    using con by simp
  have range: "0 \<le> offsetTime (tracks s' ! i)" "offsetTime (tracks s' ! i) \<le> trackTotalTime s"
    using off bounds by simp_all
  from run il ii tr [unfolded moved_def] off cases bounds range after
  show ?thesis by blast
qed

text \<open>
  Track \<^verbatim>\<open>a\<close> at offset 160 on a timeline of 5000 ms: a drag of 50 pixels to the right asks for
  320 ms and moves the track to 480; a drag of 50 pixels to the left asks for -320 ms and
  moves the track to 0; a drag of 1000 pixels to the right asks for 6400 ms and moves the
  track to 5000.
\<close>

theorem move_track_offset_clamped_witness:
  "requestedChange 50 1 = 320
   \<and> trackOnStop 5000 ''a'' 50 1 demoStore = Some (demoStore\<lparr>tracks := [mkTrack ''a'' 480 []]\<rparr>)
   \<and> requestedChange (- 50) 1 = - 320
   \<and> trackOnStop 5000 ''a'' (- 50) 1 demoStore = Some (demoStore\<lparr>tracks := [mkTrack ''a'' 0 []]\<rparr>)
   \<and> requestedChange 1000 1 = 6400
   \<and> trackOnStop 5000 ''a'' 1000 1 demoStore
       = Some (demoStore\<lparr>tracks := [mkTrack ''a'' 5000 []]\<rparr>)
   \<and> (\<exists>s'. trackOnStop 5000 ''a'' 50 1 demoStore = Some s'
          \<and> offsetTime (tracks s' ! 0) = 160 + 320
          \<and> offsetTime (tracks s' ! 0) \<le> trackTotalTime s')"
proof -
  have a: "\<exists>t \<in> set (tracks demoStore). trackId t = ''a''" by code_simp
  have b: "0 \<le> trackTotalTime demoStore" by code_simp
  have i: "nat (findIndex (\<lambda>t. trackId t = ''a'') (tracks demoStore)) = 0" by code_simp
  have o: "offsetTime (tracks demoStore ! 0) = 160" by code_simp
  have c: "contentTime (tracks demoStore ! 0) = 0" by code_simp
  have t: "trackTotalTime demoStore = 5000" by code_simp
  have r1: "requestedChange 50 1 = 320" by code_simp
  have r2: "requestedChange (- 50) 1 = - 320" by code_simp
  have r3: "requestedChange 1000 1 = 6400" by code_simp
  have e1: "trackOnStop 5000 ''a'' 50 1 demoStore
      = Some (demoStore\<lparr>tracks := [mkTrack ''a'' 480 []]\<rparr>)"
    by code_simp
  have e2: "trackOnStop 5000 ''a'' (- 50) 1 demoStore
      = Some (demoStore\<lparr>tracks := [mkTrack ''a'' 0 []]\<rparr>)"
    by code_simp
  have e3: "trackOnStop 5000 ''a'' 1000 1 demoStore
      = Some (demoStore\<lparr>tracks := [mkTrack ''a'' 5000 []]\<rparr>)"
    by code_simp
  from move_track_offset_clamped [OF a b, of 5000 50 1]
  have "\<exists>s'. trackOnStop 5000 ''a'' 50 1 demoStore = Some s'
          \<and> offsetTime (tracks s' ! 0) = 160 + 320
          \<and> offsetTime (tracks s' ! 0) \<le> trackTotalTime s'"
    unfolding i o c t r1 by auto
  with r1 r2 r3 e1 e2 e3 show ?thesis by blast
qed

subsection \<open>Starting a recording without a device\<close>

lemma flush_frame [simp]:
  "recordingTrackId (flushMidiRecordingContent m s) = recordingTrackId s"
  "activeMidiDeviceIndex (flushMidiRecordingContent m s) = activeMidiDeviceIndex s"
  "dropRecordingTime (flushMidiRecordingContent m s) = dropRecordingTime s"
  "selectedTrackId (flushMidiRecordingContent m s) = selectedTrackId s"
  "instrumentType (flushMidiRecordingContent m s) = instrumentType s"
  "playingTrackId (flushMidiRecordingContent m s) = playingTrackId s"
  by (simp_all add: flushMidiRecordingContent_def refreshTracksTotalTime_def Let_def)

lemma flush_idle:
  assumes "findIndex (\<lambda>t. trackId t = recordingTrackId s) (tracks s) < 0"
    and "recordingContent s = []" and "recordingRawContent s = []"
  shows "flushMidiRecordingContent m s = s"
  using assms by (simp add: flushMidiRecordingContent_def Let_def)

text \<open>
  What the record handler does when the clicked track is not the recording track and no
  device is selected: it reports \<open>NoDeviceSelected\<close> and returns the store as the first two
  statements of the handler leave it, with the recording buffers flushed and the playing
  track reset; the recording track id is as before.
\<close>

lemma recordOnClick_no_device:
  fixes m :: int and track :: Track and s :: Store
  assumes "activeMidiDeviceIndex s = - 1" and "recordingTrackId s \<noteq> trackId track"
  shows "recordOnClick m track s
           = (Inl NoDeviceSelected, (flushMidiRecordingContent m s)\<lparr>playingTrackId := ''''\<rparr>)"
    and "recordingTrackId (snd (recordOnClick m track s)) = recordingTrackId s"
  using assms by (auto simp: recordOnClick_def Let_def)

lemma playOnClick_resets_recording: "recordingTrackId (playOnClick m track s) = []"
  by (simp add: playOnClick_def Let_def)

lemma exportOnClick_resets_recording: "recordingTrackId (snd (exportOnClick tm m s)) = []"
  by (simp add: exportOnClick_def Let_def)

text \<open>
  Claim C5 says that a start of a recording that fails for want of a device changes no
  state. The handler does change state. Track \<^verbatim>\<open>a\<close> is being recorded, the buffer holds one
  note, no device is selected (any more), and the record button of track \<^verbatim>\<open>b\<close> is clicked. The
  click fails with \<open>NoDeviceSelected\<close>, but the buffer has been flushed into track \<^verbatim>\<open>a\<close> and
  emptied, and the recording track is still \<^verbatim>\<open>a\<close>, where the play and the export handlers
  reset it after the same flush. Track \<^verbatim>\<open>a\<close> is left recording on empty buffers: the next click
  on its button, which stops the recording, flushes the empty buffers and wipes the content
  that was saved. A track that is marked as playing loses the mark by the failed start.
\<close>

theorem record_without_device_changes_state:
  "activeMidiDeviceIndex recordingStore = - 1
   \<and> fst (recordOnClick 5000 (mkTrack ''b'' 0 []) recordingStore) = Inl NoDeviceSelected
   \<and> map content (tracks recordingStore) = ['''', '''']
   \<and> map content (tracks failedStartStore) = [''pi:3c:7 '', '''']
   \<and> tracks failedStartStore \<noteq> tracks recordingStore
   \<and> recordingRawContent recordingStore = [noteOn 60 64]
   \<and> recordingRawContent failedStartStore = []
   \<and> recordingContent failedStartStore = ''''
   \<and> recordingTrackId failedStartStore = ''a''
   \<and> recordingTrackId (playOnClick 5000 (mkTrack ''b'' 0 []) recordingStore) = ''''
   \<and> recordingTrackId (snd (exportOnClick [''pi'', ''p''] 5000 recordingStore)) = ''''
   \<and> map content (tracks (snd (recordOnClick 5000 (tracks failedStartStore ! 0) failedStartStore)))
       = ['''', '''']
   \<and> map rawContent (tracks (snd (recordOnClick 5000 (tracks failedStartStore ! 0) failedStartStore)))
       = [[], []]
   \<and> playingTrackId (snd (recordOnClick 5000 (mkTrack ''b'' 0 [])
          (idleStore\<lparr>playingTrackId := ''a''\<rparr>)))
        \<noteq> playingTrackId (idleStore\<lparr>playingTrackId := ''a''\<rparr>)"
  by code_simp

subsection \<open>Export: the instrument of the note tokens\<close>

text \<open>
  Claim C1 is about the export as a function of the tracks alone. Track \<^verbatim>\<open>a\<close> is recorded with
  instrument 0: its message carries the instrument tag 0 and its rendered content is
  \<^verbatim>\<open>pi:3c:7\<close>. Exported as it is, the prompt has the token \<^verbatim>\<open>pi:3c:7\<close>. After a control change
  that selects instrument 1, the export of the same tracks has the token \<^verbatim>\<open>p:3c:7\<close>: every
  note token carries the instrument that is selected when the export runs, whatever
  instrument the message was recorded with.
\<close>

theorem export_follows_selected_instrument:
  "content (tracks recordedStore ! 0) = ''pi:3c:7 ''
   \<and> map instrument (rawContent (tracks recordedStore ! 0)) = [0]
   \<and> fst (exportOnClick [''pi'', ''p''] 5000 recordedStore) = ''<pad> pi:3c:7''
   \<and> fst (exportOnClick [''pi'', ''p''] 5000
          (midiMessageHandler [''Piano'', ''Drum''] [''pi'', ''p''] (controlChange 127) recordedStore))
       = ''<pad> p:3c:7''
   \<and> tracks (midiMessageHandler [''Piano'', ''Drum''] [''pi'', ''p''] (controlChange 127) recordedStore)
       = tracks recordedStore"
  by code_simp

subsection \<open>Export: notes of one instant\<close>

text \<open>
  Claim C2 is about the order of notes with equal absolute time. A track that holds note
  60, then note 64, then a wait comes out of the merge with note 64 before note 60: the
  second note is spliced in at the same index as the first, in front of it. Encoding the
  raw content of the track directly keeps the order 60, 64.
\<close>

theorem same_instant_notes_reversed:
  "mergeMessages [mkTrack ''a'' 0 [noteOn 60 64, noteOn 64 64, elapsedTime 100]]
     = [elapsedMessage 0, noteOn 64 64, noteOn 60 64, elapsedMessage 100]
   \<and> mergeTracks [''pi''] 0 [mkTrack ''a'' 0 [noteOn 60 64, noteOn 64 64, elapsedTime 100]]
     = ''<pad> pi:40:7 pi:3c:7 t13''
   \<and> concat (map (midiMessageToToken [''pi''] 0) [noteOn 60 64, noteOn 64 64, elapsedTime 100])
     = ''pi:3c:7 pi:40:7 t13 ''"
  by code_simp

subsection \<open>Export: the merged list in closed form\<close>

text \<open>
  The two passes in terms of the absolute times: the first pass collects the offset and
  the instants of every track, the second pass is a fold of one insertion per timed note.
\<close>

lemma pushTimestamps_instants:
  "pushTimestamps off msgs acc ts = ts @ instants (off + acc) msgs"
  by (induction msgs arbitrary: acc ts) (auto simp: Let_def add.assoc)

lemma collectTimestamps_concat:
  "collectTimestamps trs ts =
     ts @ concat (map (\<lambda>tr. offsetTime tr # instants (offsetTime tr) (rawContent tr)) trs)"
  by (induction trs arbitrary: ts) (auto simp: pushTimestamps_instants)

lemma insertNotes_fold:
  "insertNotes off msgs (off + acc) acc arrays = foldl insertStep arrays (timedNotes (off + acc) msgs)"
proof (induction msgs arbitrary: acc arrays)
  case Nil
  then show ?case by simp
next
  case (Cons msg rest)
  obtain gm st where a: "arrays = (gm, st)" by (cases arrays)
  show ?case
    unfolding a using Cons.IH [of "acc + msgValue msg"] Cons.IH [of acc]
    by (auto simp: Let_def insertStep_def add.assoc)
qed

lemma insertAllNotes_fold:
  "insertAllNotes trs arrays = foldl insertStep arrays (allTimedNotes trs)"
proof (induction trs arbitrary: arrays)
  case Nil
  then show ?case by (simp add: allTimedNotes_def)
next
  case (Cons tr trs)
  show ?case
    using insertNotes_fold [of "offsetTime tr" "rawContent tr" 0] Cons.IH
    by (simp add: allTimedNotes_def)
qed

text \<open>
  Where \<^verbatim>\<open>findIndex\<close> and \<^verbatim>\<open>splice\<close> put an item: after the first element that passes the test,
  behind any block of elements that fail it.
\<close>

lemma findIndex_map: "findIndex P (map f xs) = findIndex (\<lambda>x. P (f x)) xs"
  by (induction xs) (auto simp: Let_def)

lemma map_splice: "map f (splice i y xs) = splice i (f y) (map f xs)"
  by (simp add: splice_def Let_def take_map drop_map)

lemma splice_after_head:
  "P x \<Longrightarrow> splice (findIndex P (x # xs) + 1) y (x # xs) = x # y # xs"
  by (simp add: splice_def Let_def)

lemma splice_skip_head:
  assumes "\<not> P x" and "\<exists>z \<in> set xs. P z"
  shows "splice (findIndex P (x # xs) + 1) y (x # xs) = x # splice (findIndex P xs + 1) y xs"
proof -
  have nn: "0 \<le> findIndex P xs" using assms(2) by (rule findIndex_exists)
  then have lt: "nat (findIndex P xs) < length xs" using findIndex_found by blast
  have "findIndex P (x # xs) = findIndex P xs + 1"
    using assms(1) nn by (simp add: Let_def)
  moreover have "findIndex P xs + 1 \<le> int (length xs)" using nn lt by linarith
  ultimately show ?thesis
    using nn by (simp add: splice_def Let_def nat_add_distrib)
qed

lemma splice_skip_block:
  assumes "\<forall>b \<in> set bs. \<not> P b" and "\<exists>z \<in> set xs. P z"
  shows "splice (findIndex P (bs @ xs) + 1) y (bs @ xs) = bs @ splice (findIndex P xs + 1) y xs"
  using assms
proof (induction bs)
  case Nil
  then show ?case by simp
next
  case (Cons b bs)
  then have "\<exists>z \<in> set (bs @ xs). P z" by auto
  with Cons show ?case
    using splice_skip_head [of P b "bs @ xs" y] by simp
qed

lemma insertStep_pairs:
  "insertStep (map fst z, map snd z) (T, m) = (map fst (insertPair T m z), map snd (insertPair T m z))"
  by (simp add: insertStep_def insertPair_def Let_def map_splice findIndex_map)

lemma foldl_insertStep_pairs:
  "foldl insertStep (map fst z, map snd z) ns
     = (map fst (foldl (\<lambda>z p. insertPair (fst p) (snd p) z) z ns),
        map snd (foldl (\<lambda>z p. insertPair (fst p) (snd p) z) z ns))"
proof (induction ns arbitrary: z)
  case Nil
  then show ?case by simp
next
  case (Cons p ns)
  obtain T m where p: "p = (T, m)" by (cases p)
  show ?case unfolding p using Cons.IH [of "insertPair T m z"]
    by (simp add: insertStep_pairs)
qed

lemma layout_has_instant:
  "t \<in> set ts \<Longrightarrow> \<exists>p \<in> set (layout prev ts ns). snd p = t"
proof (induction ts arbitrary: prev ns)
  case Nil
  then show ?case by simp
next
  case (Cons a ts)
  show ?case
  proof (cases "t = a")
    case True
    then show ?thesis by simp
  next
    case False
    with Cons.prems have "t \<in> set ts" by simp
    from Cons.IH [OF this, of a "filter (\<lambda>p. fst p \<noteq> a) ns"]
    show ?thesis by auto
  qed
qed

lemma notesAt_snoc:
  "notesAt t (ns @ [(T, m)]) = (if T = t then m # notesAt t ns else notesAt t ns)"
  by (simp add: notesAt_def)

text \<open>
  One insertion into the layout gives the layout with the note added at the end of the
  notes processed so far. The timestamps are sorted and not negative and the time of the
  note is among them, so the search passes the placeholders and the earlier instants, stops
  at the first entry of the note's instant, and the note comes to stand right after it, in
  front of the notes of the instant that are there already.
\<close>

lemma insertPair_layout:
  assumes "sorted ts" and "T \<in> set ts" and "\<forall>t \<in> set ts. 0 \<le> t"
  shows "insertPair T m (layout prev ts ns) = layout prev ts (ns @ [(T, m)])"
  using assms
proof (induction ts arbitrary: prev ns)
  case Nil
  then show ?case by simp
next
  case (Cons t ts)
  let ?rest = "layout t ts (filter (\<lambda>p. fst p \<noteq> t) ns)"
  let ?block = "map (\<lambda>m. (m, 0::int)) (notesAt t ns)"
  show ?case
  proof (cases "T = t")
    case True
    then show ?thesis
      using splice_after_head [of "\<lambda>p. T \<le> snd p" "(elapsedMessage (t - prev), t)"
          "?block @ ?rest" "(m, 0)"]
      by (simp add: insertPair_def notesAt_snoc)
  next
    case False
    with Cons.prems have Tin: "T \<in> set ts" and lt: "t < T"
      by auto
    have t0: "0 \<le> t" using Cons.prems by simp
    have noblock: "\<forall>b \<in> set ((elapsedMessage (t - prev), t) # ?block). \<not> T \<le> snd b"
      using lt t0 by auto
    have found: "\<exists>z \<in> set ?rest. T \<le> snd z"
      using layout_has_instant [OF Tin, of t "filter (\<lambda>p. fst p \<noteq> t) ns"] by auto
    have "insertPair T m (layout prev (t # ts) ns)
        = ((elapsedMessage (t - prev), t) # ?block) @ insertPair T m ?rest"
      using splice_skip_block [OF noblock found, of "(m, 0)"]
      by (simp add: insertPair_def)
    also have "insertPair T m ?rest = layout t ts (filter (\<lambda>p. fst p \<noteq> t) ns @ [(T, m)])"
      using Cons.prems Tin by (intro Cons.IH) auto
    finally show ?thesis using False by (simp add: notesAt_snoc)
  qed
qed

lemma foldl_insertPair_layout:
  assumes "sorted ts" and "\<forall>t \<in> set ts. 0 \<le> t" and "\<forall>p \<in> set later. fst p \<in> set ts"
  shows "foldl (\<lambda>z p. insertPair (fst p) (snd p) z) (layout prev ts ns) later
           = layout prev ts (ns @ later)"
  using assms(3)
proof (induction later arbitrary: ns)
  case Nil
  then show ?case by simp
next
  case (Cons p later)
  obtain T m where p: "p = (T, m)" by (cases p)
  have "T \<in> set ts" using Cons.prems p by simp
  from insertPair_layout [OF assms(1) this assms(2), of m prev ns]
  show ?case unfolding p using Cons.IH [of "ns @ [(T, m)]"] Cons.prems by simp
qed

lemma notesAt_Nil [simp]: "notesAt t [] = []"
  by (simp add: notesAt_def)

lemma layout_empty_snd: "map snd (layout prev ts []) = ts"
  by (induction ts arbitrary: prev) simp_all

lemma layout_empty_fst:
  "map fst (layout prev ts []) =
     map (\<lambda>i. elapsedMessage (ts ! i - (if i = 0 then prev else ts ! (i - 1)))) [0..<length ts]"
proof (induction ts arbitrary: prev)
  case Nil
  then show ?case by simp
next
  case (Cons t ts)
  have "[0..<length (t # ts)] = 0 # map Suc [0..<length ts]"
    by (simp add: upt_conv_Cons map_Suc_upt del: upt_Suc)
  then have "map (\<lambda>i. elapsedMessage ((t # ts) ! i - (if i = 0 then prev else (t # ts) ! (i - 1))))
        [0..<length (t # ts)]
      = elapsedMessage (t - prev) #
        map (\<lambda>i. elapsedMessage (ts ! i - (if i = 0 then t else ts ! (i - 1)))) [0..<length ts]"
    by (auto simp: nth_Cons' simp del: upt_Suc)
  with Cons.IH [of t] show ?case by simp
qed

lemma skeleton_layout:
  "(skeletonMessages ts, ts) = (map fst (layout 0 ts []), map snd (layout 0 ts []))"
  by (simp add: skeletonMessages_def layout_empty_fst layout_empty_snd)

lemma timedNotes_instants:
  "p \<in> set (timedNotes now msgs) \<Longrightarrow> fst p \<in> set (now # instants now msgs)"
proof (induction msgs arbitrary: now)
  case Nil
  then show ?case by simp
next
  case (Cons msg rest)
  show ?case
  proof (cases "messageType msg = ElapsedTime")
    case True
    with Cons.prems have "p \<in> set (timedNotes (now + msgValue msg) rest)" by simp
    from Cons.IH [OF this] True show ?thesis by simp
  next
    case False
    with Cons.prems have "p = (now, msg) \<or> p \<in> set (timedNotes now rest)"
      by (simp split: if_splits)
    then show ?thesis
    proof
      assume "p = (now, msg)"
      then show ?thesis by simp
    next
      assume "p \<in> set (timedNotes now rest)"
      from Cons.IH [OF this] False show ?thesis by simp
    qed
  qed
qed

lemma allTimedNotes_instants:
  assumes "p \<in> set (allTimedNotes trs)"
  shows "fst p \<in> set (allInstants trs)"
proof -
  from assms obtain tr where tr: "tr \<in> set trs"
    and p: "p \<in> set (timedNotes (offsetTime tr) (rawContent tr))"
    unfolding allTimedNotes_def by auto
  from timedNotes_instants [OF p]
  have "fst p \<in> set (offsetTime tr # instants (offsetTime tr) (rawContent tr))" .
  with tr show ?thesis unfolding allInstants_def by force
qed

lemma timedNotes_are_notes:
  "p \<in> set (timedNotes now msgs) \<Longrightarrow> messageType (snd p) = NoteOn \<or> messageType (snd p) = NoteOff"
proof (induction msgs arbitrary: now)
  case Nil
  then show ?case by simp
next
  case (Cons msg rest)
  show ?case
  proof (cases "messageType msg = ElapsedTime")
    case True
    with Cons.prems have "p \<in> set (timedNotes (now + msgValue msg) rest)" by simp
    from Cons.IH [OF this] show ?thesis .
  next
    case False
    show ?thesis
    proof (cases "messageType msg = NoteOn \<or> messageType msg = NoteOff")
      case True
      with False Cons.prems have "p = (now, msg) \<or> p \<in> set (timedNotes now rest)" by simp
      with True Cons.IH show ?thesis by auto
    next
      case no: False
      with False Cons.prems have "p \<in> set (timedNotes now rest)" by simp
      from Cons.IH [OF this] show ?thesis .
    qed
  qed
qed

lemma allTimedNotes_are_notes:
  assumes "p \<in> set (allTimedNotes trs)"
  shows "messageType (snd p) = NoteOn \<or> messageType (snd p) = NoteOff"
proof -
  from assms obtain tr where "tr \<in> set trs"
    and "p \<in> set (timedNotes (offsetTime tr) (rawContent tr))"
    unfolding allTimedNotes_def by auto
  then show ?thesis using timedNotes_are_notes by blast
qed

lemma instants_nonneg:
  assumes "0 \<le> now" and "\<forall>msg \<in> set msgs. messageType msg = ElapsedTime \<longrightarrow> 0 \<le> msgValue msg"
  shows "\<forall>t \<in> set (instants now msgs). 0 \<le> t"
  using assms
proof (induction msgs arbitrary: now)
  case Nil
  then show ?case by simp
next
  case (Cons msg rest)
  show ?case
  proof (cases "messageType msg = ElapsedTime")
    case True
    with Cons.prems have n: "0 \<le> now + msgValue msg" by simp
    from Cons.IH [OF n] Cons.prems True n show ?thesis by simp
  next
    case False
    with Cons.IH [OF Cons.prems(1)] Cons.prems show ?thesis by simp
  qed
qed

lemma allInstants_nonneg:
  assumes "nonnegTimes trs"
  shows "\<forall>t \<in> set (allInstants trs). 0 \<le> t"
proof
  fix t assume "t \<in> set (allInstants trs)"
  then obtain tr where tr: "tr \<in> set trs"
    and t: "t = offsetTime tr \<or> t \<in> set (instants (offsetTime tr) (rawContent tr))"
    unfolding allInstants_def by auto
  from assms tr have o: "0 \<le> offsetTime tr"
    and v: "\<forall>msg \<in> set (rawContent tr). messageType msg = ElapsedTime \<longrightarrow> 0 \<le> msgValue msg"
    unfolding nonnegTimes_def by auto
  from instants_nonneg [OF o v] t o show "0 \<le> t" by auto
qed

text \<open>
  The merged list of tracks with times that are not negative is the layout of the sorted
  timestamps with the timed notes of the tracks.
\<close>

lemma mergeMessages_layout:
  assumes "nonnegTimes trackList"
  shows "mergeMessages trackList =
     map fst (layout 0 (sort (allInstants (sort_key offsetTime trackList)))
                       (allTimedNotes (sort_key offsetTime trackList)))"
proof -
  let ?trs = "sort_key offsetTime trackList"
  let ?ts = "sort (allInstants ?trs)"
  have nn: "nonnegTimes ?trs" using assms by (simp add: nonnegTimes_def)
  have ts: "collectTimestamps ?trs [] = allInstants ?trs"
    by (simp add: collectTimestamps_concat allInstants_def)
  have a: "sorted ?ts" by simp
  have b: "\<forall>t \<in> set ?ts. 0 \<le> t" using allInstants_nonneg [OF nn] by simp
  have c: "\<forall>p \<in> set (allTimedNotes ?trs). fst p \<in> set ?ts"
    using allTimedNotes_instants by simp
  have "insertAllNotes ?trs (skeletonMessages ?ts, ?ts)
      = foldl insertStep (map fst (layout 0 ?ts []), map snd (layout 0 ?ts [])) (allTimedNotes ?trs)"
    unfolding insertAllNotes_fold skeleton_layout ..
  also have "\<dots> = (map fst (layout 0 ?ts (allTimedNotes ?trs)),
                    map snd (layout 0 ?ts (allTimedNotes ?trs)))"
    unfolding foldl_insertStep_pairs
    using foldl_insertPair_layout [OF a b c, of 0 "[]"] by simp
  finally show ?thesis
    by (simp add: mergeMessages_def Let_def ts)
qed

lemma elapsedSum_append [simp]: "elapsedSum (xs @ ys) = elapsedSum xs + elapsedSum ys"
  by (simp add: elapsedSum_def)

lemma elapsedSum_Nil [simp]: "elapsedSum [] = 0"
  by (simp add: elapsedSum_def)

lemma elapsedSum_wait [simp]: "elapsedSum (elapsedMessage d # xs) = d + elapsedSum xs"
  by (simp add: elapsedSum_def elapsedMessage_def)

lemma elapsedSum_notes:
  "\<forall>x \<in> set xs. messageType x = NoteOn \<or> messageType x = NoteOff \<Longrightarrow> elapsedSum xs = 0"
  by (induction xs) (auto simp: elapsedSum_def)

lemma notesAt_are_notes:
  assumes "\<forall>p \<in> set ns. messageType (snd p) = NoteOn \<or> messageType (snd p) = NoteOff"
  shows "\<forall>x \<in> set (notesAt t ns). messageType x = NoteOn \<or> messageType x = NoteOff"
  using assms by (auto simp: notesAt_def)

lemma notesAt_other: "T \<noteq> t \<Longrightarrow> notesAt T (filter (\<lambda>p. fst p \<noteq> t) ns) = notesAt T ns"
proof -
  assume "T \<noteq> t"
  then have "filter (\<lambda>p. fst p = T) (filter (\<lambda>p. fst p \<noteq> t) ns) = filter (\<lambda>p. fst p = T) ns"
    by (induction ns) auto
  then show ?thesis by (simp add: notesAt_def)
qed

text \<open>
  The layout around an instant \<open>T\<close> of the sorted timestamps: the entries before, the first
  wait entry of \<open>T\<close>, the notes of \<open>T\<close>, the rest.
\<close>

lemma layout_decompose:
  assumes "sorted ts" and "T \<in> set ts"
    and "\<forall>p \<in> set ns. messageType (snd p) = NoteOn \<or> messageType (snd p) = NoteOff"
  shows "\<exists>pre d post. map fst (layout prev ts ns) = pre @ elapsedMessage d # notesAt T ns @ post
           \<and> elapsedSum pre + d = T - prev \<and> (pre = [] \<or> 0 < d)"
  using assms
proof (induction ts arbitrary: prev ns)
  case Nil
  then show ?case by simp
next
  case (Cons t ts)
  let ?ns' = "filter (\<lambda>p. fst p \<noteq> t) ns"
  show ?case
  proof (cases "T = t")
    case True
    have "map fst (layout prev (t # ts) ns)
        = [] @ elapsedMessage (t - prev) # notesAt T ns @ map fst (layout t ts ?ns')"
      using True by (simp add: comp_def)
    moreover have "elapsedSum [] + (t - prev) = T - prev" using True by simp
    ultimately show ?thesis by blast
  next
    case False
    with Cons.prems have Tin: "T \<in> set ts" and lt: "t < T" and st: "sorted ts"
      by auto
    have ns': "\<forall>p \<in> set ?ns'. messageType (snd p) = NoteOn \<or> messageType (snd p) = NoteOff"
      using Cons.prems(3) by simp
    from Cons.IH [OF st Tin ns', of t]
    obtain pre d post where
      eq: "map fst (layout t ts ?ns') = pre @ elapsedMessage d # notesAt T ?ns' @ post"
      and sum: "elapsedSum pre + d = T - t" and pos: "pre = [] \<or> 0 < d"
      by blast
    let ?pre = "elapsedMessage (t - prev) # notesAt t ns @ pre"
    have "map fst (layout prev (t # ts) ns) = ?pre @ elapsedMessage d # notesAt T ns @ post"
      using eq False by (simp add: comp_def notesAt_other)
    moreover have "elapsedSum ?pre + d = T - prev"
      using sum elapsedSum_notes [OF notesAt_are_notes [OF Cons.prems(3), of t]] by simp
    moreover have "0 < d" using pos sum lt by auto
    ultimately show ?thesis by blast
  qed
qed

text \<open>
  Claim C3. Let the tracks have the times of the data model, and let a note of some track
  have the absolute time \<open>T\<close>. Then the merged list is \<open>pre @ wait # block @ post\<close>, where the
  wait entry brings the elapsed time to \<open>T\<close> exactly (it is the first skeleton entry of the
  instant \<open>T\<close>: either nothing precedes it or it is longer than 0), and \<open>block\<close> holds the
  notes of all tracks with the absolute time \<open>T\<close>, this note among them, and nothing else.
  So every note stands after the wait entry of its instant, and the notes of one instant
  stand side by side after one shared wait entry, with no wait entry between them; the
  further skeleton entries of the same instant, of length 0, follow in \<open>post\<close>. The encoder
  turns the lists into the prompt piece by piece.
\<close>

theorem notes_follow_the_wait_of_their_instant:
  assumes "nonnegTimes trackList"
    and "(T, m) \<in> set (allTimedNotes (sort_key offsetTime trackList))"
  defines "block \<equiv> notesAt T (allTimedNotes (sort_key offsetTime trackList))"
  shows "\<exists>pre d post.
           mergeMessages trackList = pre @ elapsedMessage d # block @ post
         \<and> elapsedSum pre + d = T \<and> (pre = [] \<or> 0 < d)
         \<and> m \<in> set block
         \<and> (\<forall>x \<in> set block. messageType x = NoteOn \<or> messageType x = NoteOff)
         \<and> (\<forall>tm sel. mergeTracks tm sel trackList =
               trim (''<pad> '' @ concat (map (midiMessageToToken tm sel) pre)
                     @ midiMessageToToken tm sel (elapsedMessage d)
                     @ concat (map (midiMessageToToken tm sel) block)
                     @ concat (map (midiMessageToToken tm sel) post)))"
proof -
  let ?trs = "sort_key offsetTime trackList"
  let ?ts = "sort (allInstants ?trs)"
  let ?ns = "allTimedNotes ?trs"
  have nts: "\<forall>p \<in> set ?ns. messageType (snd p) = NoteOn \<or> messageType (snd p) = NoteOff"
    using allTimedNotes_are_notes by blast
  have Tin: "T \<in> set ?ts" using allTimedNotes_instants [OF assms(2)] by simp
  from layout_decompose [OF _ Tin nts, of 0]
  obtain pre d post where
    eq: "map fst (layout 0 ?ts ?ns) = pre @ elapsedMessage d # block @ post"
    and sum: "elapsedSum pre + d = T" and pos: "pre = [] \<or> 0 < d"
    unfolding block_def by auto
  have mm: "mergeMessages trackList = pre @ elapsedMessage d # block @ post"
    using mergeMessages_layout [OF assms(1)] eq by simp
  have mem: "m \<in> set block"
    using assms(2) unfolding block_def notesAt_def by force
  have blk: "\<forall>x \<in> set block. messageType x = NoteOn \<or> messageType x = NoteOff"
    unfolding block_def using notesAt_are_notes [OF nts] .
  have tok: "\<forall>tm sel. mergeTracks tm sel trackList =
               trim (''<pad> '' @ concat (map (midiMessageToToken tm sel) pre)
                     @ midiMessageToToken tm sel (elapsedMessage d)
                     @ concat (map (midiMessageToToken tm sel) block)
                     @ concat (map (midiMessageToToken tm sel) post))"
    unfolding mergeTracks_def mm by simp
  from mm sum pos mem blk tok show ?thesis by blast
qed

theorem notes_follow_the_wait_of_their_instant_witness:
  "nonnegTimes demoTracks
   \<and> (500, noteOn 60 64) \<in> set (allTimedNotes (sort_key offsetTime demoTracks))
   \<and> notesAt 500 (allTimedNotes (sort_key offsetTime demoTracks)) = [noteOn 64 64, noteOn 60 64]
   \<and> mergeMessages demoTracks
       = [elapsedMessage 0, elapsedMessage 500, noteOn 64 64, noteOn 60 64, elapsedMessage 0]
   \<and> (\<exists>pre d post. mergeMessages demoTracks = pre @ elapsedMessage d # [noteOn 64 64, noteOn 60 64] @ post
         \<and> elapsedSum pre + d = 500 \<and> (pre = [] \<or> 0 < d))"
proof -
  have a: "nonnegTimes demoTracks" by code_simp
  have b: "(500, noteOn 60 64) \<in> set (allTimedNotes (sort_key offsetTime demoTracks))"
    by code_simp
  have c: "notesAt 500 (allTimedNotes (sort_key offsetTime demoTracks)) = [noteOn 64 64, noteOn 60 64]"
    by code_simp
  have d: "mergeMessages demoTracks
       = [elapsedMessage 0, elapsedMessage 500, noteOn 64 64, noteOn 60 64, elapsedMessage 0]"
    by code_simp
  from notes_follow_the_wait_of_their_instant [OF a b]
  have "\<exists>pre d post. mergeMessages demoTracks = pre @ elapsedMessage d # [noteOn 64 64, noteOn 60 64] @ post
         \<and> elapsedSum pre + d = 500 \<and> (pre = [] \<or> 0 < d)"
    unfolding c by blast
  with a b c d show ?thesis by blast
qed

subsection \<open>Export: the merge and the arrays of the store\<close>

declare forOf.simps [code]



text \<open>
  A loop over an array that its body leaves alone ends and computes a fold: if every round
  keeps a relation \<open>R\<close> between an abstract state and the loop state and heap, and \<open>R\<close> fixes the
  content of the array, the loop returns a state related to the fold over the array.
\<close>

lemma forOf_simulates:
  fixes R :: "'p \<Rightarrow> 's \<Rightarrow> Heap \<Rightarrow> bool"
  assumes arr: "\<And>p s h. R p s h \<Longrightarrow> array h = xs"
    and step: "\<And>x p s h. x \<in> set xs \<Longrightarrow> R p s h \<Longrightarrow>
                 \<exists>s' h'. body x s h = Some (s', h') \<and> R (f p x) s' h'"
    and "R p s h" and "i \<le> length xs"
  shows "\<exists>s' h'. forOf array body i s h = Some (s', h') \<and> R (foldl f p (drop i xs)) s' h'"
  using assms(3,4)
proof (induction "length xs - i" arbitrary: i p s h)
  case 0
  then have "i = length xs" by simp
  with arr [OF "0.prems"(1)] "0.prems"(1) show ?case
    by (subst forOf.simps) simp
next
  case (Suc n)
  then have lt: "i < length xs" by simp
  have a: "array h = xs" using arr [OF Suc.prems(1)] .
  have mem: "xs ! i \<in> set xs" using lt by simp
  from step [OF mem Suc.prems(1)]
  obtain s1 h1 where b: "body (xs ! i) s h = Some (s1, h1)" and r: "R (f p (xs ! i)) s1 h1"
    by blast
  have n: "n = length xs - (i + 1)" using Suc.hyps(2) by simp
  from Suc.hyps(1) [OF n r] lt
  obtain s' h' where c: "forOf array body (i + 1) s1 h1 = Some (s', h')"
    and r': "R (foldl f (f p (xs ! i)) (drop (i + 1) xs)) s' h'"
    by auto
  have d: "drop i xs = xs ! i # drop (i + 1) xs"
    using lt by (simp add: Cons_nth_drop_Suc)
  have "forOf array body i s h = Some (s', h')"
    using a lt b c by (subst forOf.simps) simp
  with r' d show ?case by simp
qed

lemma foldl_pushStep:
  "foldl (pushStep off) (acc, ts) msgs = (acc + sum_list (map msgValue (filter (\<lambda>m. messageType m = ElapsedTime) msgs)),
      pushTimestamps off msgs acc ts)"
  by (induction msgs arbitrary: acc ts) (auto simp: pushStep_def Let_def)

lemma foldl_insertOne:
  "snd (snd (foldl (insertOne off) (cur, acc, gm, st) msgs)) = insertNotes off msgs cur acc (gm, st)"
  by (induction msgs arbitrary: cur acc gm st) (auto simp: Let_def)

text \<open>
  The loops of the first pass write to the array \<^verbatim>\<open>timestamp\<close> at address \<open>a\<close> only; they compute
  \<open>pushTimestamps\<close> and \<open>collectTimestamps\<close>.
\<close>

lemma first_inner:
  assumes a: "a < length NA"
  shows "\<exists>acc'. forOf (\<lambda>h. messageArrays h ! r) (firstPassInner a cell) 0 acc
            \<lparr>trackArrays = TA, numberArrays = NA[a := ts], messageArrays = MA\<rparr>
         = Some (acc', \<lparr>trackArrays = TA,
                        numberArrays = NA[a := pushTimestamps (cellOffsetTime cell) (MA ! r) acc ts],
                        messageArrays = MA\<rparr>)"
proof -
  define R where "R = (\<lambda>(p :: int \<times> int list) (s :: int) h.
      s = fst p \<and> h = \<lparr>trackArrays = TA, numberArrays = NA[a := snd p], messageArrays = MA\<rparr>)"
  have arr: "\<And>p s h. R p s h \<Longrightarrow> messageArrays h ! r = MA ! r"
    by (simp add: R_def)
  have step: "\<exists>s' h'. firstPassInner a cell x s h = Some (s', h') \<and>
                 R (pushStep (cellOffsetTime cell) p x) s' h'"
    if "x \<in> set (MA ! r)" and "R p s h" for x p s h
    using that(2) a
    by (auto simp: R_def firstPassInner_def pushStep_def pushNumber_def Let_def)
  have init: "R (acc, ts) acc \<lparr>trackArrays = TA, numberArrays = NA[a := ts], messageArrays = MA\<rparr>"
    by (simp add: R_def)
  from forOf_simulates [of R "\<lambda>h. messageArrays h ! r" "MA ! r" "firstPassInner a cell"
      "pushStep (cellOffsetTime cell)", OF arr step init, where i = 0]
  show ?thesis
    by (auto simp: R_def foldl_pushStep)
qed

lemma first_body:
  assumes a: "a < length NA"
  shows "firstPassBody a cell ()
            \<lparr>trackArrays = TA, numberArrays = NA[a := ts], messageArrays = MA\<rparr>
         = Some ((), \<lparr>trackArrays = TA,
                      numberArrays = NA[a := pushTimestamps (cellOffsetTime cell)
                          (MA ! cellRawContent cell) 0 (ts @ [cellOffsetTime cell])],
                      messageArrays = MA\<rparr>)"
proof -
  have p: "pushNumber a x \<lparr>trackArrays = TA, numberArrays = NA[a := ts], messageArrays = MA\<rparr>
      = \<lparr>trackArrays = TA, numberArrays = NA[a := ts @ [x]], messageArrays = MA\<rparr>" for x
    using a by (simp add: pushNumber_def)
  from first_inner [OF a, of "cellRawContent cell" cell 0 TA "ts @ [cellOffsetTime cell]" MA]
  show ?thesis
    by (auto simp: firstPassBody_def p)
qed

lemma first_pass:
  assumes a: "a < length NA"
  shows "forOf (\<lambda>h. trackArrays h ! sr) (firstPassBody a) 0 ()
            \<lparr>trackArrays = TA, numberArrays = NA[a := ts], messageArrays = MA\<rparr>
         = Some ((), \<lparr>trackArrays = TA,
              numberArrays = NA[a := collectTimestamps
                 (map (trackOf \<lparr>trackArrays = TA, numberArrays = NA, messageArrays = MA\<rparr>) (TA ! sr)) ts],
              messageArrays = MA\<rparr>)"
proof -
  define R where "R = (\<lambda>(p :: int list) (s :: unit) h.
      h = \<lparr>trackArrays = TA, numberArrays = NA[a := p], messageArrays = MA\<rparr>)"
  define f where "f = (\<lambda>ts (cell :: TrackCell). pushTimestamps (cellOffsetTime cell)
      (MA ! cellRawContent cell) 0 (ts @ [cellOffsetTime cell]))"
  have arr: "\<And>p s h. R p s h \<Longrightarrow> trackArrays h ! sr = TA ! sr"
    by (simp add: R_def)
  have step: "\<exists>s' h'. firstPassBody a x s h = Some (s', h') \<and> R (f p x) s' h'"
    if "x \<in> set (TA ! sr)" and "R p s h" for x p s h
    using that(2) first_body [OF a, of x TA p MA]
    by (simp add: R_def f_def)
  have init: "R ts () \<lparr>trackArrays = TA, numberArrays = NA[a := ts], messageArrays = MA\<rparr>"
    by (simp add: R_def)
  have fold: "foldl f ts cells = collectTimestamps
      (map (trackOf \<lparr>trackArrays = TA, numberArrays = NA, messageArrays = MA\<rparr>) cells) ts" for cells
    by (induction cells arbitrary: ts) (simp_all add: f_def trackOf_def)
  from forOf_simulates [of R "\<lambda>h. trackArrays h ! sr" "TA ! sr" "firstPassBody a" f,
      OF arr step init, where i = 0]
  show ?thesis
    by (auto simp: R_def fold)
qed

text \<open>
  The loops of the second pass write to \<^verbatim>\<open>sortedTimestamp\<close> at address \<open>st\<close> and to
  \<^verbatim>\<open>globalMessages\<close> at address \<open>g\<close> only. The inner loop iterates the raw content at address
  \<open>r\<close>; it ends because \<open>r\<close> is not \<open>g\<close>. The loops compute \<open>insertNotes\<close> and \<open>insertAllNotes\<close>.
\<close>

lemma second_inner:
  assumes st: "st < length NA" and g: "g < length MA" and r: "r \<noteq> g"
  shows "\<exists>clock. forOf (\<lambda>h. messageArrays h ! r) (secondPassInner g st cell) 0
            (cellOffsetTime cell + acc, acc)
            \<lparr>trackArrays = TA, numberArrays = NA[st := ts], messageArrays = MA[g := gm]\<rparr>
         = Some (clock, \<lparr>trackArrays = TA,
              numberArrays = NA[st := snd (insertNotes (cellOffsetTime cell) (MA ! r)
                                      (cellOffsetTime cell + acc) acc (gm, ts))],
              messageArrays = MA[g := fst (insertNotes (cellOffsetTime cell) (MA ! r)
                                      (cellOffsetTime cell + acc) acc (gm, ts))]\<rparr>)"
proof -
  define R where "R = (\<lambda>(p :: int \<times> int \<times> MidiMessage list \<times> int list) (s :: int \<times> int) h.
      s = (fst p, fst (snd p)) \<and>
      h = \<lparr>trackArrays = TA, numberArrays = NA[st := snd (snd (snd p))],
           messageArrays = MA[g := fst (snd (snd p))]\<rparr>)"
  have arr: "\<And>p s h. R p s h \<Longrightarrow> messageArrays h ! r = MA ! r"
    using r by (simp add: R_def)
  have step: "\<exists>s' h'. secondPassInner g st cell x s h = Some (s', h') \<and>
                 R (insertOne (cellOffsetTime cell) p x) s' h'"
    if "x \<in> set (MA ! r)" and "R p s h" for x p s h
    using that(2) st g
    by (cases p rule: prod_cases4)
       (auto simp: R_def secondPassInner_def spliceMessage_def spliceNumber_def Let_def)
  have init: "R (cellOffsetTime cell + acc, acc, gm, ts) (cellOffsetTime cell + acc, acc)
      \<lparr>trackArrays = TA, numberArrays = NA[st := ts], messageArrays = MA[g := gm]\<rparr>"
    by (simp add: R_def)
  have "\<exists>s' h'. forOf (\<lambda>h. messageArrays h ! r) (secondPassInner g st cell) 0
            (cellOffsetTime cell + acc, acc)
            \<lparr>trackArrays = TA, numberArrays = NA[st := ts], messageArrays = MA[g := gm]\<rparr>
         = Some (s', h') \<and>
        R (foldl (insertOne (cellOffsetTime cell))
            (cellOffsetTime cell + acc, acc, gm, ts) (drop 0 (MA ! r))) s' h'"
    by (rule forOf_simulates [where R = R and xs = "MA ! r"]) (use arr step init in auto)
  then obtain s' h' where run: "forOf (\<lambda>h. messageArrays h ! r) (secondPassInner g st cell) 0
            (cellOffsetTime cell + acc, acc)
            \<lparr>trackArrays = TA, numberArrays = NA[st := ts], messageArrays = MA[g := gm]\<rparr>
         = Some (s', h')"
    and fin: "R (foldl (insertOne (cellOffsetTime cell))
        (cellOffsetTime cell + acc, acc, gm, ts) (MA ! r)) s' h'"
    by auto
  from fin foldl_insertOne [of "cellOffsetTime cell" "cellOffsetTime cell + acc" acc gm ts "MA ! r"]
  have "h' = \<lparr>trackArrays = TA,
              numberArrays = NA[st := snd (insertNotes (cellOffsetTime cell) (MA ! r)
                                      (cellOffsetTime cell + acc) acc (gm, ts))],
              messageArrays = MA[g := fst (insertNotes (cellOffsetTime cell) (MA ! r)
                                      (cellOffsetTime cell + acc) acc (gm, ts))]\<rparr>"
    by (simp add: R_def)
  with run show ?thesis by blast
qed

lemma second_body:
  assumes st: "st < length NA" and g: "g < length MA" and r: "cellRawContent cell \<noteq> g"
  shows "secondPassBody g st cell ()
            \<lparr>trackArrays = TA, numberArrays = NA[st := ts], messageArrays = MA[g := gm]\<rparr>
         = Some ((), \<lparr>trackArrays = TA,
              numberArrays = NA[st := snd (insertNotes (cellOffsetTime cell)
                  (MA ! cellRawContent cell) (cellOffsetTime cell) 0 (gm, ts))],
              messageArrays = MA[g := fst (insertNotes (cellOffsetTime cell)
                  (MA ! cellRawContent cell) (cellOffsetTime cell) 0 (gm, ts))]\<rparr>)"
  using second_inner [OF st g r, of cell 0 TA ts gm]
  by (auto simp: secondPassBody_def)

lemma second_pass:
  fixes gm :: "MidiMessage list" and ts :: "int list"
  assumes st: "st < length NA" and g: "g < length MA"
    and r: "\<forall>cell \<in> set (TA ! sr). cellRawContent cell \<noteq> g"
  defines "X \<equiv> insertAllNotes
      (map (trackOf \<lparr>trackArrays = TA, numberArrays = NA, messageArrays = MA\<rparr>) (TA ! sr)) (gm, ts)"
  shows "forOf (\<lambda>h. trackArrays h ! sr) (secondPassBody g st) 0 ()
            \<lparr>trackArrays = TA, numberArrays = NA[st := ts], messageArrays = MA[g := gm]\<rparr>
         = Some ((), \<lparr>trackArrays = TA, numberArrays = NA[st := snd X],
                      messageArrays = MA[g := fst X]\<rparr>)"
proof -
  define R where "R = (\<lambda>(p :: MidiMessage list \<times> int list) (s :: unit) h.
      h = \<lparr>trackArrays = TA, numberArrays = NA[st := snd p], messageArrays = MA[g := fst p]\<rparr>)"
  define f where "f = (\<lambda>arrays (cell :: TrackCell). insertNotes (cellOffsetTime cell)
      (MA ! cellRawContent cell) (cellOffsetTime cell) 0 arrays)"
  have arr: "\<And>p s h. R p s h \<Longrightarrow> trackArrays h ! sr = TA ! sr"
    by (simp add: R_def)
  have step: "\<exists>s' h'. secondPassBody g st x s h = Some (s', h') \<and> R (f p x) s' h'"
    if "x \<in> set (TA ! sr)" and "R p s h" for x p s h
  proof -
    from that(1) r have "cellRawContent x \<noteq> g" by simp
    from second_body [OF st g this, of TA "snd p" "fst p"] that(2)
    show ?thesis by (simp add: R_def f_def)
  qed
  have init: "R (gm, ts) () \<lparr>trackArrays = TA, numberArrays = NA[st := ts],
      messageArrays = MA[g := gm]\<rparr>"
    by (simp add: R_def)
  have fold: "foldl f arrays cells = insertAllNotes
      (map (trackOf \<lparr>trackArrays = TA, numberArrays = NA, messageArrays = MA\<rparr>) cells) arrays"
    for cells arrays
    by (induction cells arbitrary: arrays) (simp_all add: f_def trackOf_def)
  have "\<exists>s' h'. forOf (\<lambda>h. trackArrays h ! sr) (secondPassBody g st) 0 ()
            \<lparr>trackArrays = TA, numberArrays = NA[st := ts], messageArrays = MA[g := gm]\<rparr>
         = Some (s', h') \<and> R (foldl f (gm, ts) (drop 0 (TA ! sr))) s' h'"
    by (rule forOf_simulates [where R = R and xs = "TA ! sr"]) (use arr step init in auto)
  then show ?thesis
    by (auto simp: R_def fold X_def)
qed

lemma insort_key_map:
  "insort_key f (g x) (map g xs) = map g (insort_key (\<lambda>y. f (g y)) x xs)"
  by (induction xs) simp_all

lemma sort_key_map: "sort_key f (map g xs) = map g (sort_key (\<lambda>y. f (g y)) xs)"
  by (induction xs) (simp_all add: insort_key_map)

lemma trackOf_offset [simp]: "offsetTime (trackOf h cell) = cellOffsetTime cell"
  by (simp add: trackOf_def)

text \<open>
  The run of the merge on a heap: the result and the final heap, which is the first heap
  with four arrays appended: the sorted copy of the track array, \<^verbatim>\<open>timestamp\<close>,
  \<^verbatim>\<open>sortedTimestamp\<close> and \<^verbatim>\<open>globalMessages\<close>.
\<close>

lemma mergeHeap_run:
  fixes TA :: "TrackCell list list" and NA :: "int list list" and MA :: "MidiMessage list list"
  assumes ref: "tracksRef < length TA"
    and raw: "\<forall>cell \<in> set (TA ! tracksRef). cellRawContent cell < length MA"
  defines "h \<equiv> \<lparr>trackArrays = TA, numberArrays = NA, messageArrays = MA\<rparr>"
  defines "cells \<equiv> sort_key cellOffsetTime (TA ! tracksRef)"
  defines "T \<equiv> collectTimestamps (map (trackOf h) cells) []"
  defines "X \<equiv> insertAllNotes (map (trackOf h) cells) (skeletonMessages (sort T), sort T)"
  shows "mergeHeap tracksRef h
     = Some (fst X, \<lparr>trackArrays = TA @ [cells], numberArrays = NA @ [T, snd X],
                     messageArrays = MA @ [fst X]\<rparr>)"
proof -
  let ?TA = "TA @ [cells]"
  let ?sk = "skeletonMessages (sort T)"
  have rawC: "\<forall>cell \<in> set cells. cellRawContent cell < length MA"
    using raw by (simp add: cells_def)
  have tr1: "map (trackOf \<lparr>trackArrays = ?TA, numberArrays = NA @ [[]], messageArrays = MA\<rparr>) cells
      = map (trackOf h) cells"
    by (simp add: trackOf_def h_def)
  have tr2: "map (trackOf \<lparr>trackArrays = ?TA, numberArrays = NA @ [T, sort T],
        messageArrays = MA @ [?sk]\<rparr>) cells = map (trackOf h) cells"
    using rawC by (simp add: trackOf_def h_def nth_append)
  have p1: "forOf (\<lambda>h. trackArrays h ! length TA) (firstPassBody (length NA)) 0 ()
        \<lparr>trackArrays = ?TA, numberArrays = NA @ [[]], messageArrays = MA\<rparr>
      = Some ((), \<lparr>trackArrays = ?TA, numberArrays = NA @ [T], messageArrays = MA\<rparr>)"
    using first_pass [where a = "length NA" and NA = "NA @ [[]]" and sr = "length TA"
        and TA = ?TA and ts = "[]" and MA = MA]
    by (simp add: tr1 T_def)
  have neq: "\<forall>cell \<in> set (?TA ! length TA). cellRawContent cell \<noteq> length MA"
    using rawC by auto
  have p2: "forOf (\<lambda>h. trackArrays h ! length TA) (secondPassBody (length MA) (Suc (length NA))) 0 ()
        \<lparr>trackArrays = ?TA, numberArrays = NA @ [T, sort T], messageArrays = MA @ [?sk]\<rparr>
      = Some ((), \<lparr>trackArrays = ?TA, numberArrays = NA @ [T, snd X],
                   messageArrays = MA @ [fst X]\<rparr>)"
    using second_pass [where st = "Suc (length NA)" and NA = "NA @ [T, sort T]"
        and g = "length MA" and MA = "MA @ [?sk]" and TA = ?TA and sr = "length TA"
        and gm = ?sk and ts = "sort T", OF _ _ neq]
    by (simp add: tr2 X_def list_update_append)
  show ?thesis
    unfolding mergeHeap_def h_def
    using ref
    by (simp add: newNumberArray_def sliceTrackArray_def sortTrackArray_def sliceNumberArray_def
        sortNumberArray_def newMessageArray_def cells_def [symmetric] p1 p2
        list_update_append nth_append)
qed

text \<open>
  Claim C10. The merge does not change the track store. On every heap in which the address
  of the track array and the addresses of the raw contents of its tracks are in use, the
  merge ends, its result is the merged list of the tracks of the store, and every array
  that was in the heap before is at its address with its content afterwards: the track
  array of the store, the raw content of every track, and every other array. The merge
  sorts, pushes to and splices the four arrays it has allocated itself, and no other. So
  every track of the store has the same id, offset, content time, raw content and rendered
  content as before.
\<close>

theorem merge_writes_only_its_own_arrays:
  assumes "tracksRef < length (trackArrays h)"
    and "\<forall>cell \<in> set (trackArrays h ! tracksRef). cellRawContent cell < length (messageArrays h)"
  shows "\<exists>h'. mergeHeap tracksRef h
            = Some (mergeMessages (map (trackOf h) (trackArrays h ! tracksRef)), h')
          \<and> pristine h h'
          \<and> trackArrays h' ! tracksRef = trackArrays h ! tracksRef
          \<and> map (trackOf h') (trackArrays h' ! tracksRef)
              = map (trackOf h) (trackArrays h ! tracksRef)"
proof -
  obtain TA NA MA where h: "h = \<lparr>trackArrays = TA, numberArrays = NA, messageArrays = MA\<rparr>"
    by (cases h) auto
  from assms have ref: "tracksRef < length TA"
    and raw: "\<forall>cell \<in> set (TA ! tracksRef). cellRawContent cell < length MA"
    by (simp_all add: h)
  define cells where "cells = sort_key cellOffsetTime (TA ! tracksRef)"
  define T where "T = collectTimestamps (map (trackOf h) cells) []"
  define X where "X = insertAllNotes (map (trackOf h) cells) (skeletonMessages (sort T), sort T)"
  define h' where "h' = \<lparr>trackArrays = TA @ [cells], numberArrays = NA @ [T, snd X],
      messageArrays = MA @ [fst X]\<rparr>"
  have run: "mergeHeap tracksRef h = Some (fst X, h')"
    using mergeHeap_run [OF ref raw, of NA]
    unfolding h h'_def X_def T_def cells_def .
  have srt: "sort_key offsetTime (map (trackOf h) (TA ! tracksRef)) = map (trackOf h) cells"
    by (simp add: sort_key_map cells_def)
  have res: "mergeMessages (map (trackOf h) (trackArrays h ! tracksRef)) = fst X"
    by (simp add: mergeMessages_def Let_def h srt [unfolded h] X_def T_def)
  have fr: "pristine h h'"
    by (simp add: pristine_def h h'_def)
  have same: "trackArrays h' ! tracksRef = trackArrays h ! tracksRef"
    using ref by (simp add: h h'_def nth_append)
  have tracks: "map (trackOf h') (trackArrays h' ! tracksRef)
      = map (trackOf h) (trackArrays h ! tracksRef)"
    unfolding same using raw by (simp add: h h'_def trackOf_def nth_append)
  from run res fr same tracks show ?thesis by auto
qed

theorem merge_writes_only_its_own_arrays_witness:
  "0 < length (trackArrays demoHeap)
   \<and> mergeMessages (map (trackOf demoHeap) (trackArrays demoHeap ! 0))
       = [elapsedMessage 0, elapsedMessage 500, noteOn 64 64, noteOn 60 64, elapsedMessage 0]
   \<and> (\<exists>h'. mergeHeap 0 demoHeap
              = Some ([elapsedMessage 0, elapsedMessage 500, noteOn 64 64, noteOn 60 64,
                       elapsedMessage 0], h')
           \<and> pristine demoHeap h'
           \<and> trackArrays h' ! 0 = trackArrays demoHeap ! 0)"
proof -
  have a: "0 < length (trackArrays demoHeap)" by code_simp
  have b: "\<forall>cell \<in> set (trackArrays demoHeap ! 0).
      cellRawContent cell < length (messageArrays demoHeap)"
    by code_simp
  have c: "mergeMessages (map (trackOf demoHeap) (trackArrays demoHeap ! 0))
       = [elapsedMessage 0, elapsedMessage 500, noteOn 64 64, noteOn 60 64, elapsedMessage 0]"
    by code_simp
  from merge_writes_only_its_own_arrays [OF a b] a c show ?thesis by auto
qed

text \<open>The merge of the example heap, evaluated.\<close>

lemma demo_run:
  "map_option fst (mergeHeap 0 demoHeap)
     = Some [elapsedMessage 0, elapsedMessage 500, noteOn 64 64, noteOn 60 64, elapsedMessage 0]"
  by code_simp

end
